theory Spec2Isabelle
  imports Main "HOL-Library.Sublist" "HOL-Library.Multiset"
begin

section \<open>Python values\<close>

text \<open>
  A Python \<open>str\<close> is a sequence of Unicode code points; the phoneme symbols of the
  inventories are not ASCII (\<open>U+02B0\<close> for aspiration, \<open>U+031A\<close> for an unreleased
  stop, \<open>U+014B\<close> for the velar nasal), so a string is modelled as the list of its code
  points. \<open>ascii\<close> embeds an ASCII literal.
\<close>

type_synonym pystr = "nat list"

definition ascii :: "string \<Rightarrow> pystr" where
  "ascii s = map of_char s"

text \<open>A value that is a string or \<open>None\<close> (an optional field, a missing csv cell).\<close>

datatype pyval = PyNone | PyStr pystr

datatype error =
    IndexError
  | KeyError pystr
  | TypeError
  | AttributeError
  | UnboundLocalError
  | ValueError
  | UnknownShape "pystr option"
  | AssertionError pyval nat
  | ExternalError pystr

text \<open>\<open>s.startswith(p)\<close>\<close>

definition startswith :: "pystr \<Rightarrow> pystr \<Rightarrow> bool" where
  "startswith s p = prefix p s"

text \<open>\<open>s[0]\<close>: the one-character string at index 0, IndexError on the empty string.\<close>

fun index0 :: "pystr \<Rightarrow> error + pystr" where
  "index0 [] = Inl IndexError"
| "index0 (c # cs) = Inr [c]"

text \<open>\<open>s[-1]\<close>\<close>

definition index_last :: "pystr \<Rightarrow> error + pystr" where
  "index_last s = (if s = [] then Inl IndexError else Inr [last s])"

text \<open>
  \<open>itertools.permutations(xs, 2)\<close>: the pairs of elements at two different positions,
  in the lexicographic order of the positions.
\<close>

definition permutations2 :: "'a list \<Rightarrow> ('a \<times> 'a) list" where
  "permutations2 xs =
     concat (map (\<lambda>i. map (\<lambda>j. (xs ! i, xs ! j)) (filter (\<lambda>j. j \<noteq> i) [0..<length xs]))
                 [0..<length xs])"

section \<open>The phoneme inventories (generate.py, kor.py)\<close>

definition PLAIN_STOP_ONSETS :: "pystr list" where
  "PLAIN_STOP_ONSETS = [[112], [116], [99], [107]]"

definition ASPIRATED_STOP_ONSETS :: "pystr list" where
  "ASPIRATED_STOP_ONSETS = [[112, 688], [116, 688], [99, 688], [107, 688]]"

definition STOP_ONSETS :: "pystr list" where
  "STOP_ONSETS = PLAIN_STOP_ONSETS @ ASPIRATED_STOP_ONSETS"

definition NASAL_ONSETS :: "pystr list" where
  "NASAL_ONSETS = [[109], [110]]"

definition SIMPLE_ONSETS :: "pystr list" where
  "SIMPLE_ONSETS = STOP_ONSETS @ [[115]] @ NASAL_ONSETS"

definition FRONT_VOWELS :: "pystr list" where
  "FRONT_VOWELS = [[105], [97]]"

definition BACK_VOWELS :: "pystr list" where
  "BACK_VOWELS = [[111], [117]]"

definition VOWELS :: "pystr list" where
  "VOWELS = FRONT_VOWELS @ BACK_VOWELS"

definition NASAL_CODAS :: "pystr list" where
  "NASAL_CODAS = [[109], [110], [331]]"

definition STOP_CODAS :: "pystr list" where
  "STOP_CODAS = [[112, 794], [116, 794], [107, 794]]"

definition CODAS :: "pystr list" where
  "CODAS = NASAL_CODAS @ STOP_CODAS"

section \<open>Syllable descriptors\<close>

text \<open>
  The two dataclasses. \<open>coda\<close> and \<open>shape\<close> of a \<open>Monosyllable\<close> are
  \<open>Optional[str]\<close> with default \<open>None\<close>.
\<close>

datatype Monosyllable =
  Monosyllable (onset: pystr) (nucleus: pystr) (coda: "pystr option") (shape: "pystr option")

datatype Bisyllable =
  Bisyllable (syl1: Monosyllable) (syl2: Monosyllable) (bshape: pystr)

section \<open>Generators\<close>

text \<open>
  A generator function is modelled by what it has yielded when it is exhausted, together
  with the final value of its local state, or by the exception that ended it. A
  \<open>for\<close> loop runs its body on each element in turn, threading the state and
  appending the yields; the first exception ends the loop.
\<close>

type_synonym ('b, 's) gen = "'s \<Rightarrow> error + ('b list \<times> 's)"

fun for_loop :: "'a list \<Rightarrow> ('a \<Rightarrow> ('b, 's) gen) \<Rightarrow> ('b, 's) gen" where
  "for_loop [] body s = Inr ([], s)"
| "for_loop (x # xs) body s =
     (case body x s of
        Inl e \<Rightarrow> Inl e
      | Inr (ys, s') \<Rightarrow>
          (case for_loop xs body s' of
             Inl e \<Rightarrow> Inl e
           | Inr (zs, s'') \<Rightarrow> Inr (ys @ zs, s'')))"

text \<open>Two statements in sequence.\<close>

definition then_gen :: "('b, 's) gen \<Rightarrow> ('b, 's) gen \<Rightarrow> ('b, 's) gen" where
  "then_gen g h s =
     (case g s of
        Inl e \<Rightarrow> Inl e
      | Inr (ys, s') \<Rightarrow>
          (case h s' of Inl e \<Rightarrow> Inl e | Inr (zs, s'') \<Rightarrow> Inr (ys @ zs, s'')))"

text \<open>\<open>continue\<close> and \<open>yield x\<close>.\<close>

definition continue :: "('b, 's) gen" where
  "continue s = Inr ([], s)"

definition yield :: "'b \<Rightarrow> ('b, 's) gen" where
  "yield x s = Inr ([x], s)"

subsection \<open>\<open>_monosyllables\<close>\<close>

text \<open>
  The body shared by the four families: \<open>if coda.startswith(x[0]): continue\<close>, then
  \<open>yield Monosyllable(onset, nucleus, coda, shape)\<close>. \<open>x\<close> is the onset in the plain
  and glide families and the stop of the cluster in the two nasal families.
\<close>

definition mono_coda_body ::
  "pystr \<Rightarrow> pystr \<Rightarrow> pystr \<Rightarrow> string \<Rightarrow> pystr \<Rightarrow> (Monosyllable, unit) gen" where
  "mono_coda_body x ons nuc shp cod s =
     (case index0 x of
        Inl e \<Rightarrow> Inl e
      | Inr c \<Rightarrow>
          if startswith cod c then continue s
          else yield (Monosyllable ons nuc (Some cod) (Some (ascii shp))) s)"

definition monosyllables_plain :: "(Monosyllable, unit) gen" where
  "monosyllables_plain =
     for_loop SIMPLE_ONSETS (\<lambda>ons.
       for_loop VOWELS (\<lambda>vowel.
         for_loop CODAS (mono_coda_body ons ons vowel ''CVC'')))"

definition monosyllables_cw :: "(Monosyllable, unit) gen" where
  "monosyllables_cw =
     for_loop STOP_ONSETS (\<lambda>ons.
       for_loop FRONT_VOWELS (\<lambda>vowel.
         for_loop CODAS (mono_coda_body ons ons (ascii ''w'' @ vowel) ''CwVC'')))"

definition monosyllables_prenasal :: "(Monosyllable, unit) gen" where
  "monosyllables_prenasal =
     for_loop STOP_ONSETS (\<lambda>stop.
       for_loop NASAL_ONSETS (\<lambda>nasal.
         for_loop VOWELS (\<lambda>vowel.
           for_loop STOP_CODAS (mono_coda_body stop (nasal @ stop) vowel ''NCVC''))))"

definition monosyllables_postnasal :: "(Monosyllable, unit) gen" where
  "monosyllables_postnasal =
     for_loop STOP_ONSETS (\<lambda>stop.
       for_loop NASAL_ONSETS (\<lambda>nasal.
         for_loop VOWELS (\<lambda>vowel.
           for_loop STOP_CODAS (mono_coda_body stop (stop @ nasal) vowel ''CNVC''))))"

definition monosyllables :: "error + (Monosyllable list \<times> unit)" where
  "monosyllables =
     then_gen monosyllables_plain
       (then_gen monosyllables_cw
         (then_gen monosyllables_prenasal monosyllables_postnasal)) ()"

subsection \<open>\<open>_disyllables\<close>\<close>

text \<open>
  The state of the generator is its local variable \<open>syl2\<close>, unbound (\<open>None\<close>) when
  the generator starts. In the plain family the loop over the codas only assigns
  \<open>syl2\<close>, and the \<open>yield\<close> after that loop reads the variable; in the other three
  families the \<open>yield\<close> follows the assignment inside the loop.
\<close>

type_synonym dstate = "Monosyllable option"

definition assign_syl2 :: "Monosyllable \<Rightarrow> (Bisyllable, dstate) gen" where
  "assign_syl2 m s = Inr ([], Some m)"

definition yield_bisyllable :: "Monosyllable \<Rightarrow> string \<Rightarrow> (Bisyllable, dstate) gen" where
  "yield_bisyllable s1 shp s =
     (case s of
        None \<Rightarrow> Inl UnboundLocalError
      | Some s2 \<Rightarrow> yield (Bisyllable s1 s2 (ascii shp)) s)"

text \<open>
  \<open>if coda.startswith(onset2[0]): continue\<close>, then
  \<open>syl2 = Monosyllable(onset2, vowel2, coda, shape="CVC")\<close>.
\<close>

definition di_coda_assign :: "pystr \<Rightarrow> pystr \<Rightarrow> pystr \<Rightarrow> (Bisyllable, dstate) gen" where
  "di_coda_assign onset2 vowel2 cod s =
     (case index0 onset2 of
        Inl e \<Rightarrow> Inl e
      | Inr c \<Rightarrow>
          if startswith cod c then continue s
          else assign_syl2 (Monosyllable onset2 vowel2 (Some cod) (Some (ascii ''CVC''))) s)"

text \<open>The same, followed by the \<open>yield\<close> inside the loop.\<close>

definition di_coda_yield ::
  "Monosyllable \<Rightarrow> string \<Rightarrow> pystr \<Rightarrow> pystr \<Rightarrow> pystr \<Rightarrow> (Bisyllable, dstate) gen" where
  "di_coda_yield s1 shp onset2 vowel2 cod s =
     (case index0 onset2 of
        Inl e \<Rightarrow> Inl e
      | Inr c \<Rightarrow>
          if startswith cod c then continue s
          else then_gen
                 (assign_syl2 (Monosyllable onset2 vowel2 (Some cod) (Some (ascii ''CVC''))))
                 (yield_bisyllable s1 shp) s)"

definition disyllables_plain :: "(Bisyllable, dstate) gen" where
  "disyllables_plain =
     for_loop (permutations2 SIMPLE_ONSETS) (\<lambda>(onset1, onset2).
       if startswith onset1 onset2 \<or> startswith onset2 onset1 then continue
       else
         for_loop (permutations2 VOWELS) (\<lambda>(vowel1, vowel2).
           then_gen
             (for_loop CODAS (di_coda_assign onset2 vowel2))
             (yield_bisyllable (Monosyllable onset1 vowel1 None (Some (ascii ''CV''))) ''CVCVC'')))"

definition disyllables_cw :: "(Bisyllable, dstate) gen" where
  "disyllables_cw =
     for_loop (permutations2 SIMPLE_ONSETS) (\<lambda>(onset1, onset2).
       if startswith onset1 onset2 \<or> startswith onset2 onset1 then continue
       else
         for_loop (List.product FRONT_VOWELS VOWELS) (\<lambda>(vowel1, vowel2).
           for_loop CODAS
             (di_coda_yield (Monosyllable onset1 (ascii ''w'' @ vowel1) None (Some (ascii ''CwV'')))
                ''CwVCVC'' onset2 vowel2)))"

definition disyllables_prenasal :: "(Bisyllable, dstate) gen" where
  "disyllables_prenasal =
     for_loop STOP_ONSETS (\<lambda>stop.
       for_loop NASAL_ONSETS (\<lambda>nasal.
         for_loop (permutations2 VOWELS) (\<lambda>(vowel1, vowel2).
           for_loop SIMPLE_ONSETS (\<lambda>onset2.
             if startswith onset2 stop then continue
             else
               for_loop CODAS
                 (di_coda_yield (Monosyllable (nasal @ stop) vowel1 None (Some (ascii ''NCV'')))
                    ''NCVCVC'' onset2 vowel2)))))"

definition disyllables_postnasal :: "(Bisyllable, dstate) gen" where
  "disyllables_postnasal =
     for_loop STOP_ONSETS (\<lambda>stop.
       for_loop NASAL_ONSETS (\<lambda>nasal.
         for_loop (permutations2 VOWELS) (\<lambda>(vowel1, vowel2).
           for_loop SIMPLE_ONSETS (\<lambda>onset2.
             if startswith onset2 stop then continue
             else
               for_loop CODAS
                 (di_coda_yield (Monosyllable (stop @ nasal) vowel1 None (Some (ascii ''CNV'')))
                    ''CNVCVC'' onset2 vowel2)))))"

definition disyllables :: "error + (Bisyllable list \<times> dstate)" where
  "disyllables =
     then_gen disyllables_plain
       (then_gen disyllables_cw
         (then_gen disyllables_prenasal disyllables_postnasal)) None"


section \<open>Spelling, Hangul and romanization (generate.py)\<close>

text \<open>
  A subscript \<open>d[k]\<close> on a dict raises KeyError for a missing key. \<open>bind_err\<close> runs
  the next step on a value and passes an exception on.
\<close>

definition lookup :: "(pystr \<rightharpoonup> 'v) \<Rightarrow> pystr \<Rightarrow> error + 'v" where
  "lookup d k = (case d k of None \<Rightarrow> Inl (KeyError k) | Some v \<Rightarrow> Inr v)"

definition bind_err :: "error + 'a \<Rightarrow> ('a \<Rightarrow> error + 'b) \<Rightarrow> error + 'b" where
  "bind_err m f = (case m of Inl e \<Rightarrow> Inl e | Inr x \<Rightarrow> f x)"

definition HANGUL_ONSET :: "pystr \<rightharpoonup> pystr" where
  "HANGUL_ONSET = map_of
     [([112], [12610]), ([116], [12599]), ([99], [12616]), ([107], [12593]),
      ([112, 688], [12621]), ([116, 688], [12620]), ([99, 688], [12618]),
      ([107, 688], [12619]), ([115], [4361]), ([109], [4358]), ([110], [4354])]"

definition HANGUL_NUCLEUS :: "pystr \<rightharpoonup> pystr" where
  "HANGUL_NUCLEUS = map_of
     [([97], [12623]), ([111], [12631]), ([117], [12636]), ([105], [12643]),
      ([119, 97], [12632]), ([119, 105], [12639])]"

definition HANGUL_CODA :: "pystr \<rightharpoonup> pystr" where
  "HANGUL_CODA = map_of
     [([112, 794], [4536]), ([116, 794], [4526]), ([107, 794], [4520]),
      ([109], [4535]), ([110], [4523]), ([331], [4540])]"

text \<open>
  \<open>Monosyllable.jamo_tuple\<close>. A shape of \<open>None\<close> is not in the list of the first
  test, and \<open>None.startswith\<close> is an AttributeError. The operands of \<open>+\<close> are
  evaluated left to right.
\<close>

definition spelled_onset :: "Monosyllable \<Rightarrow> error + pystr" where
  "spelled_onset m =
     (if shape m \<in> set (map (\<lambda>t. Some (ascii t)) [''CV'', ''CVC'', ''CwV'', ''CwVC''])
      then lookup HANGUL_ONSET (onset m)
      else
        (case shape m of
           None \<Rightarrow> Inl AttributeError
         | Some sh \<Rightarrow>
             if startswith sh (ascii ''NCV'') then
               bind_err (index0 (onset m)) (\<lambda>c.
               bind_err (lookup HANGUL_ONSET c) (\<lambda>a.
               bind_err (lookup HANGUL_ONSET (drop 1 (onset m))) (\<lambda>b. Inr (a @ b))))
             else if startswith sh (ascii ''CNV'') then
               bind_err (lookup HANGUL_ONSET (butlast (onset m))) (\<lambda>a.
               bind_err (index_last (onset m)) (\<lambda>c.
               bind_err (lookup HANGUL_ONSET c) (\<lambda>b. Inr (a @ b))))
             else Inl (UnknownShape (Some sh))))"

definition jamo_tuple :: "Monosyllable \<Rightarrow> error + (pystr \<times> pystr \<times> pystr)" where
  "jamo_tuple m =
     bind_err (spelled_onset m) (\<lambda>so.
     bind_err (lookup HANGUL_NUCLEUS (nucleus m)) (\<lambda>sn.
     bind_err (case coda m of
                 None \<Rightarrow> Inr []
               | Some c \<Rightarrow> if c = [] then Inr [] else lookup HANGUL_CODA c) (\<lambda>sc.
     Inr (so, sn, sc))))"

definition jamo :: "Monosyllable \<Rightarrow> error + pystr" where
  "jamo m = bind_err (jamo_tuple m) (\<lambda>(so, sn, sc). Inr (so @ sn @ sc))"

text \<open>
  The two library routines are not part of the repository; they are parameters of the
  model: \<open>j2h\<close> stands for \<open>jamo.jamo_to_hangul\<close> and \<open>rom\<close> for
  \<open>korean_romanizer.Romanizer(hangul).romanize()\<close>, each returning a string or raising.
\<close>

type_synonym jamo_to_hangul = "pystr \<Rightarrow> pystr \<Rightarrow> pystr \<Rightarrow> error + pystr"
type_synonym romanizer = "pystr \<Rightarrow> error + pystr"

text \<open>\<open>Monosyllable.hangul\<close>: only a TypeError of the composition is caught.\<close>

definition hangul :: "jamo_to_hangul \<Rightarrow> Monosyllable \<Rightarrow> error + pystr" where
  "hangul j2h m =
     bind_err (jamo_tuple m) (\<lambda>(so, sn, sc).
       case j2h so sn sc of
         Inl e \<Rightarrow> (if e = TypeError then Inr [] else Inl e)
       | Inr h \<Rightarrow> Inr h)"

definition romanize :: "romanizer \<Rightarrow> pystr \<Rightarrow> error + pystr" where
  "romanize rom h = rom h"

text \<open>\<open>Monosyllable.romanization\<close>\<close>

definition romanization :: "romanizer \<Rightarrow> jamo_to_hangul \<Rightarrow> Monosyllable \<Rightarrow> error + pystr" where
  "romanization rom j2h m = bind_err (hangul j2h m) (romanize rom)"

text \<open>\<open>Bisyllable.jamo\<close>, \<open>Bisyllable.hangul\<close>, \<open>Bisyllable.romanization\<close>\<close>

definition bi_jamo :: "Bisyllable \<Rightarrow> error + pystr" where
  "bi_jamo b = bind_err (jamo (syl1 b)) (\<lambda>j1. bind_err (jamo (syl2 b)) (\<lambda>j2. Inr (j1 @ j2)))"

definition bi_hangul :: "jamo_to_hangul \<Rightarrow> Bisyllable \<Rightarrow> error + pystr" where
  "bi_hangul j2h b =
     bind_err (hangul j2h (syl1 b)) (\<lambda>hangul1.
     bind_err (hangul j2h (syl2 b)) (\<lambda>hangul2.
       if hangul1 = [] \<or> hangul2 = [] then Inr [] else Inr (hangul1 @ hangul2)))"

definition bi_romanization :: "romanizer \<Rightarrow> jamo_to_hangul \<Rightarrow> Bisyllable \<Rightarrow> error + pystr" where
  "bi_romanization rom j2h b = bind_err (bi_hangul j2h b) (romanize rom)"

text \<open>\<open>Bisyllable.line\<close>: the cells of one output row; the coda cell may be \<open>None\<close>.\<close>

definition opt_val :: "pystr option \<Rightarrow> pyval" where
  "opt_val c = (case c of None \<Rightarrow> PyNone | Some x \<Rightarrow> PyStr x)"

definition bi_line :: "romanizer \<Rightarrow> jamo_to_hangul \<Rightarrow> Bisyllable \<Rightarrow> error + pyval list" where
  "bi_line rom j2h b =
     bind_err (bi_jamo b) (\<lambda>j.
     bind_err (bi_hangul j2h b) (\<lambda>h.
     bind_err (bi_romanization rom j2h b) (\<lambda>r.
       Inr [PyStr (onset (syl1 b)), PyStr (nucleus (syl1 b)), PyStr (onset (syl2 b)),
            PyStr (nucleus (syl2 b)), opt_val (coda (syl2 b)), PyStr (bshape b),
            PyStr j, PyStr h, PyStr r])))"

subsection \<open>The lexicon filter of \<open>main\<close>\<close>

text \<open>
  The loop over the generated disyllables: the state is the rows written so far and the
  counter \<open>filtered\<close>. An exception of \<open>entry.romanization\<close> or \<open>entry.line\<close>
  ends the run.
\<close>

fun filter_disyllables ::
  "romanizer \<Rightarrow> jamo_to_hangul \<Rightarrow> pystr set \<Rightarrow> Bisyllable list \<Rightarrow> pyval list list \<times> nat
     \<Rightarrow> error + (pyval list list \<times> nat)" where
  "filter_disyllables rom j2h lexicon [] st = Inr st"
| "filter_disyllables rom j2h lexicon (entry # rest) (rows, filtered) =
     bind_err (bi_romanization rom j2h entry) (\<lambda>r.
       if r \<noteq> [] \<and> r \<in> lexicon
       then filter_disyllables rom j2h lexicon rest (rows, filtered + 1)
       else bind_err (bi_line rom j2h entry) (\<lambda>l.
              filter_disyllables rom j2h lexicon rest (rows @ [l], filtered)))"


section \<open>The stratified sampler (stratify.py)\<close>

text \<open>
  A row of \<open>csv.DictReader\<close> is a dict from column names to cells; a cell is a string,
  or \<open>None\<close> where the line was shorter than the header.
\<close>

type_synonym row = "pystr \<rightharpoonup> pyval"

text \<open>\<open>del row[k]\<close>\<close>

definition delitem :: "row \<Rightarrow> pystr \<Rightarrow> error + row" where
  "delitem r k = (case r k of None \<Rightarrow> Inl (KeyError k) | Some v \<Rightarrow> Inr (r(k := None)))"

text \<open>\<open>a + b\<close> on cells: concatenation of two strings, a TypeError with \<open>None\<close>.\<close>

definition str_add :: "pyval \<Rightarrow> pyval \<Rightarrow> error + pyval" where
  "str_add a b =
     (case a of
        PyNone \<Rightarrow> Inl TypeError
      | PyStr x \<Rightarrow> (case b of PyNone \<Rightarrow> Inl TypeError | PyStr y \<Rightarrow> Inr (PyStr (x @ y))))"

text \<open>
  The expression assigned to \<open>row["transcription"]\<close>: the sum associates to the left
  and each subscript is evaluated just before it is added.
\<close>

definition transcription_of :: "row \<Rightarrow> error + pyval" where
  "transcription_of r =
     bind_err (lookup r (ascii ''onset1'')) (\<lambda>a.
     bind_err (lookup r (ascii ''nucleus1'')) (\<lambda>b.
     bind_err (str_add a b) (\<lambda>ab.
     bind_err (lookup r (ascii ''onset2'')) (\<lambda>c.
     bind_err (str_add ab c) (\<lambda>abc.
     bind_err (lookup r (ascii ''nucleus2'')) (\<lambda>d.
     bind_err (str_add abc d) (\<lambda>abcd.
     bind_err (lookup r (ascii ''coda'')) (\<lambda>e.
     str_add abcd e))))))))"

text \<open>
  The body of the loop of \<open>_proc_file\<close> on one row: \<open>None\<close> when the row is skipped
  (\<open>continue\<close>), the yielded pair otherwise.
\<close>

definition proc_row :: "row \<Rightarrow> error + (pyval \<times> row) option" where
  "proc_row r =
     bind_err (lookup r (ascii ''lexicality'')) (\<lambda>lexicality.
       if lexicality \<noteq> PyStr (ascii ''FALSE'') then Inr None
       else
         bind_err (delitem r (ascii ''lexicality'')) (\<lambda>r1.
         bind_err (delitem r1 (ascii ''memo'')) (\<lambda>r2.
         bind_err (lookup r2 (ascii ''shape'')) (\<lambda>shp.
         bind_err (transcription_of r2) (\<lambda>t.
         Inr (Some (shp, r2(ascii ''transcription'' \<mapsto> t))))))))"

text \<open>\<open>_proc_file\<close> on the rows of one table: the pairs it yields, or the exception.\<close>

fun proc_file :: "row list \<Rightarrow> error + (pyval \<times> row) list" where
  "proc_file [] = Inr []"
| "proc_file (r # rs) =
     bind_err (proc_row r) (\<lambda>y.
     bind_err (proc_file rs) (\<lambda>ys.
     Inr (case y of None \<Rightarrow> ys | Some p \<Rightarrow> p # ys)))"

text \<open>
  \<open>by_shape\<close> is a \<open>defaultdict(list)\<close>; a dict keeps its keys in the order of their
  first insertion, which is the order in which \<open>main\<close> visits the groups.
  \<open>by_shape[shape].append(row)\<close>:
\<close>

fun append_by_shape :: "(pyval \<times> row list) list \<Rightarrow> pyval \<Rightarrow> row \<Rightarrow> (pyval \<times> row list) list" where
  "append_by_shape [] k r = [(k, [r])]"
| "append_by_shape ((k', rs) # d) k r =
     (if k' = k then (k', rs @ [r]) # d else (k', rs) # append_by_shape d k r)"

definition group_rows :: "(pyval \<times> row) list \<Rightarrow> (pyval \<times> row list) list" where
  "group_rows yielded_rows = fold (\<lambda>(shp, r) d. append_by_shape d shp r) yielded_rows []"

definition size_of :: "pyval \<Rightarrow> nat" where
  "size_of shp =
     (if shp \<in> set (map (\<lambda>t. PyStr (ascii t)) [''CVC'', ''CwVC'', ''CNVC'', ''NCVC''])
      then 5 else 10)"

text \<open>
  \<open>random.shuffle\<close> with the state of the generator made explicit: the pseudo-random
  source is a parameter of the model, a function from a list and a state to the
  shuffled list and the next state.
\<close>

type_synonym 'g shuffle = "row list \<Rightarrow> 'g \<Rightarrow> row list \<times> 'g"

text \<open>
  The loop over \<open>by_shape.items()\<close>; the state is \<open>list1\<close>, \<open>list2\<close> and the random
  source. The assertion fails with the pair \<open>(shape, len(elist))\<close>.
\<close>

fun sample_groups ::
  "'g shuffle \<Rightarrow> (pyval \<times> row list) list \<Rightarrow> row list \<times> row list \<times> 'g
     \<Rightarrow> error + (row list \<times> row list \<times> 'g)" where
  "sample_groups shuffle [] st = Inr st"
| "sample_groups shuffle ((shp, entries) # rest) (list1, list2, g) =
     (let size = size_of shp in
      if \<not> length entries \<ge> size * 2 then Inl (AssertionError shp (length entries))
      else
        (case shuffle entries g of
           (elist, g') \<Rightarrow>
             sample_groups shuffle rest
               (list1 @ take size elist, list2 @ take size (drop size elist), g')))"

text \<open>
  \<open>csv.DictWriter\<close> with \<open>fieldnames=row.keys()\<close> and its defaults
  \<open>extrasaction="raise"\<close> and \<open>restval=""\<close>; the field names are the keys of the dict
  \<open>fieldrow\<close>. \<open>_dict_to_list\<close> raises a ValueError for a row with a key that is not
  a field name, and otherwise gives, for each field name, the row's value or the empty
  string: \<open>rowdict.get(key, self.restval) for key in self.fieldnames\<close>.
\<close>

definition cells :: "row \<Rightarrow> row \<Rightarrow> row" where
  "cells fieldrow rowdict =
     (\<lambda>key. case fieldrow key of
              None \<Rightarrow> None
            | Some _ \<Rightarrow> Some (case rowdict key of None \<Rightarrow> PyStr [] | Some v \<Rightarrow> v))"

definition dict_to_list :: "row \<Rightarrow> row \<Rightarrow> error + row" where
  "dict_to_list fieldrow rowdict =
     (if \<not> dom rowdict \<subseteq> dom fieldrow then Inl ValueError
      else Inr (cells fieldrow rowdict))"

text \<open>
  \<open>writer.writerows(rows)\<close>: the rows are converted one after the other, as the
  underlying writer takes them, so the rows before the first ValueError have been
  written. The result is the rows written, by field name, and the exception if any.
\<close>

fun writerows :: "row \<Rightarrow> row list \<Rightarrow> row list \<times> error option" where
  "writerows fieldrow [] = ([], None)"
| "writerows fieldrow (rowdict # rest) =
     (case dict_to_list fieldrow rowdict of
        Inl e \<Rightarrow> ([], Some e)
      | Inr c \<Rightarrow> (case writerows fieldrow rest of (ws, e) \<Rightarrow> (c # ws, e)))"

text \<open>
  What a run has written: for each of the two list files, \<open>None\<close> when the file was
  not opened, the rows written after the header otherwise.
\<close>

record written =
  list1_file :: "row list option"
  list2_file :: "row list option"

text \<open>
  \<open>main\<close>, from the rows of the two annotated tables. The variable \<open>row\<close>, whose keys
  are the field names of both writers, is bound by the two reading loops only: it is
  the last row that they yielded, and when neither yields a row it is unbound at the
  first writer, after the first file has been opened. An exception while the first list
  is written leaves the second file unopened.
\<close>

definition main :: "'g shuffle \<Rightarrow> 'g \<Rightarrow> row list \<Rightarrow> row list \<Rightarrow> error option \<times> written" where
  "main shuffle g0 mono_rows di_rows =
     (case proc_file mono_rows of
        Inl e \<Rightarrow> (Some e, \<lparr>list1_file = None, list2_file = None\<rparr>)
      | Inr ms \<Rightarrow>
     (case proc_file di_rows of
        Inl e \<Rightarrow> (Some e, \<lparr>list1_file = None, list2_file = None\<rparr>)
      | Inr ds \<Rightarrow>
     (case sample_groups shuffle (group_rows (ms @ ds)) ([], [], g0) of
        Inl e \<Rightarrow> (Some e, \<lparr>list1_file = None, list2_file = None\<rparr>)
      | Inr (list1, list2, g1) \<Rightarrow>
     (case shuffle list1 g1 of (list1', g2) \<Rightarrow>
     (case shuffle list2 g2 of (list2', g3) \<Rightarrow>
        if ms @ ds = [] then (Some UnboundLocalError, \<lparr>list1_file = Some [], list2_file = None\<rparr>)
        else
          (case writerows (snd (last (ms @ ds))) list1' of
             (ws1, Some e) \<Rightarrow> (Some e, \<lparr>list1_file = Some ws1, list2_file = None\<rparr>)
           | (ws1, None) \<Rightarrow>
               (case writerows (snd (last (ms @ ds))) list2' of
                  (ws2, e) \<Rightarrow> (e, \<lparr>list1_file = Some ws1, list2_file = Some ws2\<rparr>))))))))"

section \<open>Notions used in the statements\<close>

text \<open>The values a generator has yielded (none for one that raised).\<close>

definition yielded :: "error + ('b list \<times> 's) \<Rightarrow> 'b list" where
  "yielded r = (case r of Inl e \<Rightarrow> [] | Inr (ys, s) \<Rightarrow> ys)"

text \<open>
  The stop that governs the coda check of a syllable: the onset itself, except in the
  two cluster shapes, where it is the onset without its nasal (the first character of
  \<open>NCVC\<close>, the last of \<open>CNVC\<close>), the way \<open>jamo_tuple\<close> splits a cluster.
\<close>

definition governing_stop :: "Monosyllable \<Rightarrow> pystr" where
  "governing_stop m =
     (if shape m = Some (ascii ''NCVC'') then drop 1 (onset m)
      else if shape m = Some (ascii ''CNVC'') then butlast (onset m)
      else onset m)"

text \<open>The coda begins with the first character of the governing stop.\<close>

definition coda_clash :: "Monosyllable \<Rightarrow> bool" where
  "coda_clash m =
     (case coda m of
        None \<Rightarrow> False
      | Some c \<Rightarrow> startswith c (take 1 (governing_stop m)))"

text \<open>The codas that pass the check against \<open>x[0]\<close>, in the order of the list.\<close>

definition allowed_codas :: "pystr \<Rightarrow> pystr list \<Rightarrow> pystr list" where
  "allowed_codas x codas = filter (\<lambda>cod. \<not> startswith cod (take 1 x)) codas"

text \<open>
  The yields of each loop nest written as a list expression; the lemmas below show that
  the generators compute exactly these lists.
\<close>

definition mono_tail :: "pystr \<Rightarrow> pystr \<Rightarrow> pystr \<Rightarrow> string \<Rightarrow> pystr list \<Rightarrow> Monosyllable list" where
  "mono_tail x ons nuc shp codas =
     map (\<lambda>cod. Monosyllable ons nuc (Some cod) (Some (ascii shp))) (allowed_codas x codas)"

definition mono_plain_list :: "Monosyllable list" where
  "mono_plain_list =
     concat (map (\<lambda>ons. concat (map (\<lambda>vowel. mono_tail ons ons vowel ''CVC'' CODAS) VOWELS))
       SIMPLE_ONSETS)"

definition mono_cw_list :: "Monosyllable list" where
  "mono_cw_list =
     concat (map (\<lambda>ons.
       concat (map (\<lambda>vowel. mono_tail ons ons (ascii ''w'' @ vowel) ''CwVC'' CODAS) FRONT_VOWELS))
       STOP_ONSETS)"

definition mono_prenasal_list :: "Monosyllable list" where
  "mono_prenasal_list =
     concat (map (\<lambda>stop. concat (map (\<lambda>nasal.
       concat (map (\<lambda>vowel. mono_tail stop (nasal @ stop) vowel ''NCVC'' STOP_CODAS) VOWELS))
       NASAL_ONSETS)) STOP_ONSETS)"

definition mono_postnasal_list :: "Monosyllable list" where
  "mono_postnasal_list =
     concat (map (\<lambda>stop. concat (map (\<lambda>nasal.
       concat (map (\<lambda>vowel. mono_tail stop (stop @ nasal) vowel ''CNVC'' STOP_CODAS) VOWELS))
       NASAL_ONSETS)) STOP_ONSETS)"

definition cvc :: "pystr \<Rightarrow> pystr \<Rightarrow> pystr \<Rightarrow> Monosyllable" where
  "cvc onset2 vowel2 cod = Monosyllable onset2 vowel2 (Some cod) (Some (ascii ''CVC''))"

definition di_tail :: "Monosyllable \<Rightarrow> string \<Rightarrow> pystr \<Rightarrow> pystr \<Rightarrow> Bisyllable list" where
  "di_tail s1 shp onset2 vowel2 =
     map (\<lambda>cod. Bisyllable s1 (cvc onset2 vowel2 cod) (ascii shp)) (allowed_codas onset2 CODAS)"

definition plain_list :: "Bisyllable list" where
  "plain_list =
     concat (map (\<lambda>(onset1, onset2).
       if startswith onset1 onset2 \<or> startswith onset2 onset1 then []
       else map (\<lambda>(vowel1, vowel2).
              Bisyllable (Monosyllable onset1 vowel1 None (Some (ascii ''CV'')))
                (cvc onset2 vowel2 (last (allowed_codas onset2 CODAS))) (ascii ''CVCVC''))
            (permutations2 VOWELS))
       (permutations2 SIMPLE_ONSETS))"

definition cw_list :: "Bisyllable list" where
  "cw_list =
     concat (map (\<lambda>(onset1, onset2).
       if startswith onset1 onset2 \<or> startswith onset2 onset1 then []
       else concat (map (\<lambda>(vowel1, vowel2).
              di_tail (Monosyllable onset1 (ascii ''w'' @ vowel1) None (Some (ascii ''CwV'')))
                ''CwVCVC'' onset2 vowel2)
            (List.product FRONT_VOWELS VOWELS)))
       (permutations2 SIMPLE_ONSETS))"

definition prenasal_list :: "Bisyllable list" where
  "prenasal_list =
     concat (map (\<lambda>stop.
       concat (map (\<lambda>nasal.
         concat (map (\<lambda>(vowel1, vowel2).
           concat (map (\<lambda>onset2.
             if startswith onset2 stop then []
             else di_tail (Monosyllable (nasal @ stop) vowel1 None (Some (ascii ''NCV'')))
                    ''NCVCVC'' onset2 vowel2)
             SIMPLE_ONSETS))
           (permutations2 VOWELS)))
         NASAL_ONSETS))
       STOP_ONSETS)"

definition postnasal_list :: "Bisyllable list" where
  "postnasal_list =
     concat (map (\<lambda>stop.
       concat (map (\<lambda>nasal.
         concat (map (\<lambda>(vowel1, vowel2).
           concat (map (\<lambda>onset2.
             if startswith onset2 stop then []
             else di_tail (Monosyllable (stop @ nasal) vowel1 None (Some (ascii ''CNV'')))
                    ''CNVCVC'' onset2 vowel2)
             SIMPLE_ONSETS))
           (permutations2 VOWELS)))
         NASAL_ONSETS))
       STOP_ONSETS)"

text \<open>
  The disyllables of the plain family that have the given onsets and nuclei.
\<close>

definition plain_slot :: "pystr \<Rightarrow> pystr \<Rightarrow> pystr \<Rightarrow> pystr \<Rightarrow> Bisyllable \<Rightarrow> bool" where
  "plain_slot onset1 vowel1 onset2 vowel2 b \<longleftrightarrow>
     bshape b = ascii ''CVCVC'' \<and> onset (syl1 b) = onset1 \<and> nucleus (syl1 b) = vowel1 \<and>
     onset (syl2 b) = onset2 \<and> nucleus (syl2 b) = vowel2"

text \<open>
  A disyllable is suppressed by the lexicon filter when its romanization is a non-empty
  string of the lexicon; \<open>line_of\<close> is the row written for a disyllable.
\<close>

definition suppressed :: "romanizer \<Rightarrow> jamo_to_hangul \<Rightarrow> pystr set \<Rightarrow> Bisyllable \<Rightarrow> bool" where
  "suppressed rom j2h lexicon entry =
     (case bi_romanization rom j2h entry of
        Inl e \<Rightarrow> False
      | Inr r \<Rightarrow> r \<noteq> [] \<and> r \<in> lexicon)"

definition line_of :: "romanizer \<Rightarrow> jamo_to_hangul \<Rightarrow> Bisyllable \<Rightarrow> pyval list" where
  "line_of rom j2h entry = (case bi_line rom j2h entry of Inl e \<Rightarrow> [] | Inr l \<Rightarrow> l)"

text \<open>
  Stand-ins for the two library routines, for the examples: a composition that raises
  a TypeError unless the onset is a single character and otherwise joins its arguments,
  a romanizer that returns its argument, one that raises on every argument, and one
  that puts a question mark before its argument.
\<close>

definition j2h_stub :: jamo_to_hangul where
  "j2h_stub lead vowel tail = (if length lead = 1 then Inr (lead @ vowel @ tail) else Inl TypeError)"

definition rom_same :: romanizer where
  "rom_same h = Inr h"

definition rom_raising :: romanizer where
  "rom_raising h = Inl (KeyError h)"

definition rom_marking :: romanizer where
  "rom_marking h = Inr (ascii ''?'' @ h)"

text \<open>
  Three generated disyllables for the examples: \<open>pi.tak\<close> and \<open>pi.tok\<close>
  of the plain family and \<open>mpi.man\<close> of the prenasal family.
\<close>

definition pitak :: Bisyllable where
  "pitak = Bisyllable (Monosyllable [112] [105] None (Some (ascii ''CV'')))
     (Monosyllable [116] [97] (Some [107, 794]) (Some (ascii ''CVC''))) (ascii ''CVCVC'')"

definition pitok :: Bisyllable where
  "pitok = Bisyllable (Monosyllable [112] [105] None (Some (ascii ''CV'')))
     (Monosyllable [116] [111] (Some [107, 794]) (Some (ascii ''CVC''))) (ascii ''CVCVC'')"

definition mpiman :: Bisyllable where
  "mpiman = Bisyllable (Monosyllable [109, 112] [105] None (Some (ascii ''NCV'')))
     (Monosyllable [109] [97] (Some [110]) (Some (ascii ''CVC''))) (ascii ''NCVCVC'')"

text \<open>
  A row of an annotated table for the examples, with the given shape tag, second onset
  and judgment; its transcription is the second onset followed by \<open>an\<close>.
\<close>

definition annotated_row :: "string \<Rightarrow> pystr \<Rightarrow> string \<Rightarrow> row" where
  "annotated_row shp ons judgment =
     map_of [(ascii ''onset1'', PyStr []), (ascii ''nucleus1'', PyStr []),
             (ascii ''onset2'', PyStr ons), (ascii ''nucleus2'', PyStr [97]),
             (ascii ''coda'', PyStr [110]), (ascii ''shape'', PyStr (ascii shp)),
             (ascii ''lexicality'', PyStr (ascii judgment)), (ascii ''memo'', PyStr [])]"

text \<open>
  The row that \<open>_proc_file\<close> yields for \<open>annotated_row shp ons ''FALSE''\<close>.
\<close>

definition retained_row :: "string \<Rightarrow> pystr \<Rightarrow> row" where
  "retained_row shp ons =
     (annotated_row shp ons ''FALSE'')
       (ascii ''lexicality'' := None, ascii ''memo'' := None,
        ascii ''transcription'' \<mapsto> PyStr (ons @ [97, 110]))"

text \<open>
  A stand-in for \<open>random.shuffle\<close> in the examples: it reverses the list and counts
  the calls in its state.
\<close>

definition shuffle_rev :: "nat shuffle" where
  "shuffle_rev xs g = (rev xs, Suc g)"

text \<open>
  A shuffle is a permutation: whatever the state of the random source, the shuffled list
  has the elements of the given list, each as often.
\<close>

definition permuting :: "'g shuffle \<Rightarrow> bool" where
  "permuting shuffle \<longleftrightarrow> (\<forall>xs g. mset (fst (shuffle xs g)) = mset xs)"

text \<open>
  The number of rows of a list with a given shape tag, and the transcription cells of
  the rows of a list.
\<close>

definition shape_count :: "pyval \<Rightarrow> row list \<Rightarrow> nat" where
  "shape_count shp rows = length (filter (\<lambda>r. r (ascii ''shape'') = Some shp) rows)"

definition transcriptions :: "row list \<Rightarrow> pyval option list" where
  "transcriptions rows = map (\<lambda>r. r (ascii ''transcription'')) rows"

text \<open>
  Example tables: for each of the given shape tags, \<open>n\<close> copies of an annotated row
  judged \<open>FALSE\<close>; and what \<open>_proc_file\<close> yields on such a table.
\<close>

definition example_table :: "nat \<Rightarrow> string list \<Rightarrow> row list" where
  "example_table n shps = concat (map (\<lambda>shp. replicate n (annotated_row shp [112] ''FALSE'')) shps)"

definition example_retained :: "nat \<Rightarrow> string list \<Rightarrow> (pyval \<times> row) list" where
  "example_retained n shps =
     concat (map (\<lambda>shp. replicate n (PyStr (ascii shp), retained_row shp [112])) shps)"





section \<open>Properties of the loops\<close>

lemma for_loop_pure:
  assumes "\<And>x s. x \<in> set xs \<Longrightarrow> body x s = Inr (f x, g x s)"
  shows "for_loop xs body s = Inr (concat (map f xs), fold g xs s)"
  using assms by (induction xs arbitrary: s) simp_all

lemma for_loop_yields:
  assumes "\<And>x s. x \<in> set xs \<Longrightarrow> \<exists>s'. body x s = Inr (f x, s')"
  shows "\<exists>s'. for_loop xs body s = Inr (concat (map f xs), s')"
  using assms
proof (induction xs arbitrary: s)
  case Nil
  then show ?case by simp
next
  case (Cons x xs)
  from Cons.prems[of x s] obtain s1 where b: "body x s = Inr (f x, s1)" by auto
  from Cons.IH[of s1] Cons.prems obtain s2 where
    r: "for_loop xs body s1 = Inr (concat (map f xs), s2)" by auto
  show ?case using b r by simp
qed

lemma then_gen_yields:
  assumes "\<And>s. \<exists>s'. g s = Inr (ys, s')" and "\<And>s. \<exists>s'. h s = Inr (zs, s')"
  shows "\<exists>s'. then_gen g h s = Inr (ys @ zs, s')"
proof -
  from assms(1)[of s] obtain s1 where a: "g s = Inr (ys, s1)" by auto
  from assms(2)[of s1] obtain s2 where b: "h s1 = Inr (zs, s2)" by auto
  show ?thesis using a b by (simp add: then_gen_def)
qed

lemma concat_map_if:
  "concat (map (\<lambda>x. if P x then [] else [h x]) xs) = map h (filter (\<lambda>x. \<not> P x) xs)"
  by (induction xs) simp_all

lemma index0_nonempty: "x \<noteq> [] \<Longrightarrow> index0 x = Inr (take 1 x)"
  by (cases x) simp_all

subsection \<open>The inventories and the pairs drawn from them\<close>

lemma VOWELS_eval: "VOWELS = [[105], [97], [111], [117]]"
  by (simp add: VOWELS_def FRONT_VOWELS_def BACK_VOWELS_def)

lemma STOP_ONSETS_eval:
  "STOP_ONSETS = [[112], [116], [99], [107], [112, 688], [116, 688], [99, 688], [107, 688]]"
  by (simp add: STOP_ONSETS_def PLAIN_STOP_ONSETS_def ASPIRATED_STOP_ONSETS_def)

lemma SIMPLE_ONSETS_eval:
  "SIMPLE_ONSETS = [[112], [116], [99], [107], [112, 688], [116, 688], [99, 688], [107, 688],
                    [115], [109], [110]]"
  by (simp add: SIMPLE_ONSETS_def STOP_ONSETS_eval NASAL_ONSETS_def)

lemma CODAS_eval: "CODAS = [[109], [110], [331], [112, 794], [116, 794], [107, 794]]"
  by (simp add: CODAS_def NASAL_CODAS_def STOP_CODAS_def)

lemma simple_onset_nonempty: "x \<in> set SIMPLE_ONSETS \<Longrightarrow> x \<noteq> []"
  by (auto simp: SIMPLE_ONSETS_eval)

lemma stop_onset_nonempty: "x \<in> set STOP_ONSETS \<Longrightarrow> x \<noteq> []"
  by (auto simp: STOP_ONSETS_eval)

lemma distinct_SIMPLE_ONSETS: "distinct SIMPLE_ONSETS"
  by (simp add: SIMPLE_ONSETS_eval)

lemma distinct_VOWELS: "distinct VOWELS"
  by (simp add: VOWELS_eval)

lemma set_permutations2:
  "distinct xs \<Longrightarrow> set (permutations2 xs) = {(a, b). a \<in> set xs \<and> b \<in> set xs \<and> a \<noteq> b}"
  by (auto simp: permutations2_def nth_eq_iff_index_eq in_set_conv_nth)

lemma distinct_concat_map:
  assumes "distinct xs" and "\<And>x. x \<in> set xs \<Longrightarrow> distinct (f x)"
    and "\<And>x y. x \<in> set xs \<Longrightarrow> y \<in> set xs \<Longrightarrow> x \<noteq> y \<Longrightarrow> set (f x) \<inter> set (f y) = {}"
  shows "distinct (concat (map f xs))"
  using assms
proof (induction xs)
  case Nil
  then show ?case by simp
next
  case (Cons x xs)
  have "distinct (concat (map f xs))" using Cons by simp
  moreover have "distinct (f x)" using Cons.prems(2) by simp
  moreover have "set (f x) \<inter> set (f y) = {}" if "y \<in> set xs" for y
    using Cons.prems(1) Cons.prems(3)[of x y] that by auto
  ultimately show ?case by auto
qed

lemma distinct_permutations2:
  assumes "distinct xs"
  shows "distinct (permutations2 xs)"
  unfolding permutations2_def
proof (rule distinct_concat_map)
  show "distinct [0..<length xs]" by simp
next
  fix i assume "i \<in> set [0..<length xs]"
  then show "distinct (map (\<lambda>j. (xs ! i, xs ! j)) (filter (\<lambda>j. j \<noteq> i) [0..<length xs]))"
    using assms by (auto simp: distinct_map inj_on_def nth_eq_iff_index_eq)
next
  fix i k assume "i \<in> set [0..<length xs]" "k \<in> set [0..<length xs]" "i \<noteq> k"
  then show "set (map (\<lambda>j. (xs ! i, xs ! j)) (filter (\<lambda>j. j \<noteq> i) [0..<length xs])) \<inter>
             set (map (\<lambda>j. (xs ! k, xs ! j)) (filter (\<lambda>j. j \<noteq> k) [0..<length xs])) = {}"
    using assms by (auto simp: nth_eq_iff_index_eq)
qed

lemma perm_onsets_mem:
  "(a, b) \<in> set (permutations2 SIMPLE_ONSETS) \<longleftrightarrow>
     a \<in> set SIMPLE_ONSETS \<and> b \<in> set SIMPLE_ONSETS \<and> a \<noteq> b"
  by (simp add: set_permutations2[OF distinct_SIMPLE_ONSETS])

lemma perm_vowels_mem:
  "(a, b) \<in> set (permutations2 VOWELS) \<longleftrightarrow> a \<in> set VOWELS \<and> b \<in> set VOWELS \<and> a \<noteq> b"
  by (simp add: set_permutations2[OF distinct_VOWELS])

subsection \<open>What the disyllable generator yields\<close>

lemma di_coda_yield_pure:
  assumes "onset2 \<noteq> []"
  shows "\<exists>s'. di_coda_yield s1 shp onset2 vowel2 cod s =
           Inr (if startswith cod (take 1 onset2) then []
                else [Bisyllable s1 (cvc onset2 vowel2 cod) (ascii shp)], s')"
  using assms
  by (simp add: di_coda_yield_def index0_nonempty continue_def then_gen_def assign_syl2_def
      yield_bisyllable_def yield_def cvc_def)

lemma di_coda_loop_yields:
  assumes "onset2 \<noteq> []"
  shows "\<exists>s'. for_loop CODAS (di_coda_yield s1 shp onset2 vowel2) s =
           Inr (di_tail s1 shp onset2 vowel2, s')"
proof -
  have "\<exists>s'. for_loop CODAS (di_coda_yield s1 shp onset2 vowel2) s =
          Inr (concat (map (\<lambda>cod. if startswith cod (take 1 onset2) then []
                else [Bisyllable s1 (cvc onset2 vowel2 cod) (ascii shp)]) CODAS), s')"
    by (rule for_loop_yields) (rule di_coda_yield_pure[OF assms])
  then show ?thesis by (simp add: concat_map_if di_tail_def allowed_codas_def)
qed

lemma disyllables_cw_yields: "\<exists>s'. disyllables_cw s = Inr (cw_list, s')"
  unfolding disyllables_cw_def cw_list_def
  apply (rule for_loop_yields)
  apply (clarsimp simp: perm_onsets_mem continue_def simp del: set_concat)
  apply (rule for_loop_yields)
  apply (clarsimp simp: di_coda_loop_yields simple_onset_nonempty)
  done

lemma disyllables_prenasal_yields: "\<exists>s'. disyllables_prenasal s = Inr (prenasal_list, s')"
  unfolding disyllables_prenasal_def prenasal_list_def
  apply (rule for_loop_yields)
  apply (rule for_loop_yields)
  apply (rule for_loop_yields)
  apply (simp only: split_paired_all prod.case)
  apply (rule for_loop_yields)
  apply (simp add: di_coda_loop_yields simple_onset_nonempty continue_def)
  done

lemma disyllables_postnasal_yields: "\<exists>s'. disyllables_postnasal s = Inr (postnasal_list, s')"
  unfolding disyllables_postnasal_def postnasal_list_def
  apply (rule for_loop_yields)
  apply (rule for_loop_yields)
  apply (rule for_loop_yields)
  apply (simp only: split_paired_all prod.case)
  apply (rule for_loop_yields)
  apply (simp add: di_coda_loop_yields simple_onset_nonempty continue_def)
  done

lemma allowed_codas_nonempty:
  assumes "x \<noteq> []"
  shows "allowed_codas x CODAS \<noteq> []"
proof -
  obtain c cs where x: "x = c # cs" using assms by (cases x) auto
  have "\<not> (startswith [109] (take 1 x) \<and> startswith [110] (take 1 x))"
    by (simp add: x startswith_def)
  then show ?thesis
    by (auto simp: allowed_codas_def CODAS_eval filter_empty_conv)
qed

lemma di_coda_assign_fold:
  "fold (\<lambda>cod s. if startswith cod c then s else Some (cvc onset2 vowel2 cod)) codas s =
     (if filter (\<lambda>cod. \<not> startswith cod c) codas = [] then s
      else Some (cvc onset2 vowel2 (last (filter (\<lambda>cod. \<not> startswith cod c) codas))))"
  by (induction codas arbitrary: s) simp_all

lemma di_coda_assign_loop:
  assumes "onset2 \<noteq> []"
  shows "for_loop codas (di_coda_assign onset2 vowel2) s =
           Inr ([], if allowed_codas onset2 codas = [] then s
                    else Some (cvc onset2 vowel2 (last (allowed_codas onset2 codas))))"
proof -
  have "for_loop codas (di_coda_assign onset2 vowel2) s =
          Inr (concat (map (\<lambda>cod. []) codas),
               fold (\<lambda>cod s. if startswith cod (take 1 onset2) then s
                              else Some (cvc onset2 vowel2 cod)) codas s)"
    by (rule for_loop_pure)
       (simp add: di_coda_assign_def index0_nonempty[OF assms] continue_def assign_syl2_def cvc_def)
  then show ?thesis by (simp add: di_coda_assign_fold allowed_codas_def)
qed

lemma plain_body_yields:
  assumes "onset2 \<noteq> []"
  shows "\<exists>s'. then_gen (for_loop CODAS (di_coda_assign onset2 vowel2))
                 (yield_bisyllable s1 shp) s =
           Inr ([Bisyllable s1 (cvc onset2 vowel2 (last (allowed_codas onset2 CODAS))) (ascii shp)], s')"
  by (simp add: then_gen_def di_coda_assign_loop[OF assms] allowed_codas_nonempty[OF assms]
      yield_bisyllable_def yield_def)

lemma concat_map_single2:
  "concat (map (\<lambda>(a, b). [h a b]) xs) = map (\<lambda>(a, b). h a b) xs"
  by (induction xs) auto

lemma disyllables_plain_yields: "\<exists>s'. disyllables_plain s = Inr (plain_list, s')"
proof -
  have eq: "plain_list =
     concat (map (\<lambda>(onset1, onset2).
       if startswith onset1 onset2 \<or> startswith onset2 onset1 then []
       else concat (map (\<lambda>(vowel1, vowel2).
              [Bisyllable (Monosyllable onset1 vowel1 None (Some (ascii ''CV'')))
                (cvc onset2 vowel2 (last (allowed_codas onset2 CODAS))) (ascii ''CVCVC'')])
            (permutations2 VOWELS)))
       (permutations2 SIMPLE_ONSETS))"
    by (simp add: plain_list_def concat_map_single2 cong del: if_weak_cong)
  show ?thesis
    unfolding disyllables_plain_def eq
    apply (rule for_loop_yields)
    apply (clarsimp simp: perm_onsets_mem continue_def simp del: set_concat)
    apply (rule for_loop_yields)
    apply (clarsimp simp: plain_body_yields simple_onset_nonempty)
    done
qed

lemma disyllables_total:
  "\<exists>s'. disyllables = Inr (plain_list @ cw_list @ prenasal_list @ postnasal_list, s')"
  unfolding disyllables_def
  by (intro then_gen_yields disyllables_plain_yields disyllables_cw_yields
      disyllables_prenasal_yields disyllables_postnasal_yields)

lemma yielded_Inr: "r = Inr (ys, s) \<Longrightarrow> yielded r = ys"
  by (simp add: yielded_def)

lemma yielded_disyllables:
  "yielded disyllables = plain_list @ cw_list @ prenasal_list @ postnasal_list"
proof -
  obtain s' where "disyllables = Inr (plain_list @ cw_list @ prenasal_list @ postnasal_list, s')"
    using disyllables_total by blast
  then show ?thesis by (rule yielded_Inr)
qed

subsection \<open>What the monosyllable generator yields\<close>

lemma mono_coda_loop:
  assumes "x \<noteq> []"
  shows "\<exists>s'. for_loop codas (mono_coda_body x ons nuc shp) s = Inr (mono_tail x ons nuc shp codas, s')"
proof -
  have "\<exists>s'. for_loop codas (mono_coda_body x ons nuc shp) s =
          Inr (concat (map (\<lambda>cod. if startswith cod (take 1 x) then []
                else [Monosyllable ons nuc (Some cod) (Some (ascii shp))]) codas), s')"
    by (rule for_loop_yields)
       (simp add: mono_coda_body_def index0_nonempty[OF assms] continue_def yield_def)
  then show ?thesis by (simp add: concat_map_if mono_tail_def allowed_codas_def)
qed

lemma mono_coda_loop_unit:
  "x \<noteq> [] \<Longrightarrow>
     for_loop codas (mono_coda_body x ons nuc shp) () = Inr (mono_tail x ons nuc shp codas, ())"
  using mono_coda_loop[of x codas ons nuc shp "()"] by simp

lemma monosyllables_plain_yields: "\<exists>s'. monosyllables_plain s = Inr (mono_plain_list, s')"
  unfolding monosyllables_plain_def mono_plain_list_def
  apply (rule for_loop_yields)
  apply (rule for_loop_yields)
  apply (simp add: mono_coda_loop_unit simple_onset_nonempty)
  done

lemma monosyllables_cw_yields: "\<exists>s'. monosyllables_cw s = Inr (mono_cw_list, s')"
  unfolding monosyllables_cw_def mono_cw_list_def
  apply (rule for_loop_yields)
  apply (rule for_loop_yields)
  apply (simp add: mono_coda_loop_unit stop_onset_nonempty)
  done

lemma monosyllables_prenasal_yields: "\<exists>s'. monosyllables_prenasal s = Inr (mono_prenasal_list, s')"
  unfolding monosyllables_prenasal_def mono_prenasal_list_def
  apply (rule for_loop_yields)
  apply (rule for_loop_yields)
  apply (rule for_loop_yields)
  apply (simp add: mono_coda_loop_unit stop_onset_nonempty)
  done

lemma monosyllables_postnasal_yields: "\<exists>s'. monosyllables_postnasal s = Inr (mono_postnasal_list, s')"
  unfolding monosyllables_postnasal_def mono_postnasal_list_def
  apply (rule for_loop_yields)
  apply (rule for_loop_yields)
  apply (rule for_loop_yields)
  apply (simp add: mono_coda_loop_unit stop_onset_nonempty)
  done

lemma monosyllables_total:
  "monosyllables = Inr (mono_plain_list @ mono_cw_list @ mono_prenasal_list @ mono_postnasal_list, ())"
proof -
  have "\<exists>s'. monosyllables = Inr (mono_plain_list @ mono_cw_list @ mono_prenasal_list @ mono_postnasal_list, s')"
  unfolding monosyllables_def
  by (intro then_gen_yields monosyllables_plain_yields monosyllables_cw_yields
      monosyllables_prenasal_yields monosyllables_postnasal_yields)
  then show ?thesis by simp
qed

subsection \<open>Membership in the yield lists\<close>

lemma in_concat_map:
  "b \<in> set (concat (map f xs)) \<longleftrightarrow> (\<exists>x. x \<in> set xs \<and> b \<in> set (f x))"
  by auto

lemma in_map: "b \<in> set (map f xs) \<longleftrightarrow> (\<exists>x. x \<in> set xs \<and> b = f x)"
  by auto

lemma in_if_nil: "b \<in> set (if c then [] else xs) \<longleftrightarrow> \<not> c \<and> b \<in> set xs"
  by simp

lemma in_allowed_codas:
  "cod \<in> set (allowed_codas x codas) \<longleftrightarrow> cod \<in> set codas \<and> \<not> startswith cod (take 1 x)"
  by (auto simp: allowed_codas_def)

lemma in_di_tail:
  "b \<in> set (di_tail s1 shp onset2 vowel2) \<longleftrightarrow>
     (\<exists>cod. cod \<in> set CODAS \<and> \<not> startswith cod (take 1 onset2) \<and>
        b = Bisyllable s1 (cvc onset2 vowel2 cod) (ascii shp))"
  by (auto simp: di_tail_def allowed_codas_def)

lemma in_mono_tail:
  "m \<in> set (mono_tail x ons nuc shp codas) \<longleftrightarrow>
     (\<exists>cod. cod \<in> set codas \<and> \<not> startswith cod (take 1 x) \<and>
        m = Monosyllable ons nuc (Some cod) (Some (ascii shp)))"
  by (auto simp: mono_tail_def allowed_codas_def)

lemma in_plain_list:
  "b \<in> set plain_list \<longleftrightarrow>
     (\<exists>onset1 onset2 vowel1 vowel2.
        onset1 \<in> set SIMPLE_ONSETS \<and> onset2 \<in> set SIMPLE_ONSETS \<and> onset1 \<noteq> onset2 \<and>
        \<not> startswith onset1 onset2 \<and> \<not> startswith onset2 onset1 \<and>
        vowel1 \<in> set VOWELS \<and> vowel2 \<in> set VOWELS \<and> vowel1 \<noteq> vowel2 \<and>
        b = Bisyllable (Monosyllable onset1 vowel1 None (Some (ascii ''CV'')))
              (cvc onset2 vowel2 (last (allowed_codas onset2 CODAS))) (ascii ''CVCVC''))"
  unfolding plain_list_def
  apply (simp only: in_concat_map in_map in_if_nil split_paired_Ex prod.case
      perm_onsets_mem perm_vowels_mem)
  apply blast
  done

lemma in_cw_list:
  "b \<in> set cw_list \<longleftrightarrow>
     (\<exists>onset1 onset2 vowel1 vowel2 cod.
        onset1 \<in> set SIMPLE_ONSETS \<and> onset2 \<in> set SIMPLE_ONSETS \<and> onset1 \<noteq> onset2 \<and>
        \<not> startswith onset1 onset2 \<and> \<not> startswith onset2 onset1 \<and>
        vowel1 \<in> set FRONT_VOWELS \<and> vowel2 \<in> set VOWELS \<and>
        cod \<in> set CODAS \<and> \<not> startswith cod (take 1 onset2) \<and>
        b = Bisyllable (Monosyllable onset1 (ascii ''w'' @ vowel1) None (Some (ascii ''CwV'')))
              (cvc onset2 vowel2 cod) (ascii ''CwVCVC''))"
  unfolding cw_list_def
  apply (simp only: in_concat_map in_if_nil in_di_tail split_paired_Ex prod.case
      perm_onsets_mem set_product mem_Sigma_iff)
  apply blast
  done

lemma in_prenasal_list:
  "b \<in> set prenasal_list \<longleftrightarrow>
     (\<exists>stop nasal onset2 vowel1 vowel2 cod.
        stop \<in> set STOP_ONSETS \<and> nasal \<in> set NASAL_ONSETS \<and>
        vowel1 \<in> set VOWELS \<and> vowel2 \<in> set VOWELS \<and> vowel1 \<noteq> vowel2 \<and>
        onset2 \<in> set SIMPLE_ONSETS \<and> \<not> startswith onset2 stop \<and>
        cod \<in> set CODAS \<and> \<not> startswith cod (take 1 onset2) \<and>
        b = Bisyllable (Monosyllable (nasal @ stop) vowel1 None (Some (ascii ''NCV'')))
              (cvc onset2 vowel2 cod) (ascii ''NCVCVC''))"
  unfolding prenasal_list_def
  apply (simp only: in_concat_map in_if_nil in_di_tail split_paired_Ex prod.case perm_vowels_mem)
  apply blast
  done

lemma in_postnasal_list:
  "b \<in> set postnasal_list \<longleftrightarrow>
     (\<exists>stop nasal onset2 vowel1 vowel2 cod.
        stop \<in> set STOP_ONSETS \<and> nasal \<in> set NASAL_ONSETS \<and>
        vowel1 \<in> set VOWELS \<and> vowel2 \<in> set VOWELS \<and> vowel1 \<noteq> vowel2 \<and>
        onset2 \<in> set SIMPLE_ONSETS \<and> \<not> startswith onset2 stop \<and>
        cod \<in> set CODAS \<and> \<not> startswith cod (take 1 onset2) \<and>
        b = Bisyllable (Monosyllable (stop @ nasal) vowel1 None (Some (ascii ''CNV'')))
              (cvc onset2 vowel2 cod) (ascii ''CNVCVC''))"
  unfolding postnasal_list_def
  apply (simp only: in_concat_map in_if_nil in_di_tail split_paired_Ex prod.case perm_vowels_mem)
  apply blast
  done

lemma in_mono_plain_list:
  "m \<in> set mono_plain_list \<longleftrightarrow>
     (\<exists>ons vowel cod. ons \<in> set SIMPLE_ONSETS \<and> vowel \<in> set VOWELS \<and> cod \<in> set CODAS \<and>
        \<not> startswith cod (take 1 ons) \<and>
        m = Monosyllable ons vowel (Some cod) (Some (ascii ''CVC'')))"
  unfolding mono_plain_list_def
  apply (simp only: in_concat_map in_mono_tail)
  apply blast
  done

lemma in_mono_cw_list:
  "m \<in> set mono_cw_list \<longleftrightarrow>
     (\<exists>ons vowel cod. ons \<in> set STOP_ONSETS \<and> vowel \<in> set FRONT_VOWELS \<and> cod \<in> set CODAS \<and>
        \<not> startswith cod (take 1 ons) \<and>
        m = Monosyllable ons (ascii ''w'' @ vowel) (Some cod) (Some (ascii ''CwVC'')))"
  unfolding mono_cw_list_def
  apply (simp only: in_concat_map in_mono_tail)
  apply blast
  done

lemma in_mono_prenasal_list:
  "m \<in> set mono_prenasal_list \<longleftrightarrow>
     (\<exists>stop nasal vowel cod. stop \<in> set STOP_ONSETS \<and> nasal \<in> set NASAL_ONSETS \<and>
        vowel \<in> set VOWELS \<and> cod \<in> set STOP_CODAS \<and> \<not> startswith cod (take 1 stop) \<and>
        m = Monosyllable (nasal @ stop) vowel (Some cod) (Some (ascii ''NCVC'')))"
  unfolding mono_prenasal_list_def
  apply (simp only: in_concat_map in_mono_tail)
  apply blast
  done

lemma in_mono_postnasal_list:
  "m \<in> set mono_postnasal_list \<longleftrightarrow>
     (\<exists>stop nasal vowel cod. stop \<in> set STOP_ONSETS \<and> nasal \<in> set NASAL_ONSETS \<and>
        vowel \<in> set VOWELS \<and> cod \<in> set STOP_CODAS \<and> \<not> startswith cod (take 1 stop) \<and>
        m = Monosyllable (stop @ nasal) vowel (Some cod) (Some (ascii ''CNVC'')))"
  unfolding mono_postnasal_list_def
  apply (simp only: in_concat_map in_mono_tail)
  apply blast
  done

section \<open>The generated syllables\<close>

lemma nasal_onset_cases: "n \<in> set NASAL_ONSETS \<Longrightarrow> n = [109] \<or> n = [110]"
  by (auto simp: NASAL_ONSETS_def)

lemma front_vowel_length: "v \<in> set FRONT_VOWELS \<Longrightarrow> length v = 1"
  by (auto simp: FRONT_VOWELS_def)

lemma vowel_length: "v \<in> set VOWELS \<Longrightarrow> length v = 1"
  by (auto simp: VOWELS_eval)

lemma glide_nucleus_differs:
  assumes "v1 \<in> set FRONT_VOWELS" and "v2 \<in> set VOWELS"
  shows "ascii ''w'' @ v1 \<noteq> v2"
proof
  assume "ascii ''w'' @ v1 = v2"
  then have "length (ascii ''w'' @ v1) = length v2" by simp
  then show False
    using front_vowel_length[OF assms(1)] vowel_length[OF assms(2)] by (simp add: ascii_def)
qed

text \<open>
  C10. Every disyllable that the generator yields has different nuclei in its two
  syllables, and the generator ends without an exception.
\<close>

theorem disyllable_nuclei_differ:
  "\<exists>bs st. disyllables = Inr (bs, st) \<and>
     (\<forall>b \<in> set bs. nucleus (syl1 b) \<noteq> nucleus (syl2 b))"
proof -
  obtain st where d: "disyllables = Inr (plain_list @ cw_list @ prenasal_list @ postnasal_list, st)"
    using disyllables_total by blast
  have "nucleus (syl1 b) \<noteq> nucleus (syl2 b)"
    if mem: "b \<in> set (plain_list @ cw_list @ prenasal_list @ postnasal_list)" for b
  proof -
    consider "b \<in> set plain_list" | "b \<in> set cw_list" | "b \<in> set prenasal_list"
      | "b \<in> set postnasal_list"
      using mem by auto
    then show ?thesis
    proof cases
      case 1
      then show ?thesis unfolding in_plain_list by (auto simp: cvc_def)
    next
      case 2
      then show ?thesis unfolding in_cw_list
        by (auto simp: cvc_def glide_nucleus_differs)
    next
      case 3
      then show ?thesis unfolding in_prenasal_list by (auto simp: cvc_def)
    next
      case 4
      then show ?thesis unfolding in_postnasal_list by (auto simp: cvc_def)
    qed
  qed
  then show ?thesis using d by blast
qed

lemma plain_example:
  "Bisyllable (Monosyllable [112] [105] None (Some (ascii ''CV'')))
     (Monosyllable [116] [97] (Some [107, 794]) (Some (ascii ''CVC''))) (ascii ''CVCVC'')
   \<in> set (yielded disyllables)"
proof -
  have l: "last (allowed_codas [116] CODAS) = [107, 794]"
    by (simp add: allowed_codas_def CODAS_eval startswith_def)
  have "Bisyllable (Monosyllable [112] [105] None (Some (ascii ''CV'')))
     (cvc [116] [97] (last (allowed_codas [116] CODAS))) (ascii ''CVCVC'') \<in> set plain_list"
    unfolding in_plain_list
    by (intro exI[of _ "[112]"] exI[of _ "[116]"] exI[of _ "[105]"] exI[of _ "[97]"])
       (simp add: SIMPLE_ONSETS_eval VOWELS_eval startswith_def)
  then show ?thesis by (simp add: yielded_disyllables l cvc_def)
qed

theorem disyllable_nuclei_differ_witness:
  "Bisyllable (Monosyllable [112] [105] None (Some (ascii ''CV'')))
     (Monosyllable [116] [97] (Some [107, 794]) (Some (ascii ''CVC''))) (ascii ''CVCVC'')
     \<in> set (yielded disyllables) \<and>
   nucleus (syl1 (Bisyllable (Monosyllable [112] [105] None (Some (ascii ''CV'')))
     (Monosyllable [116] [97] (Some [107, 794]) (Some (ascii ''CVC''))) (ascii ''CVCVC'')))
   \<noteq> nucleus (syl2 (Bisyllable (Monosyllable [112] [105] None (Some (ascii ''CV'')))
     (Monosyllable [116] [97] (Some [107, 794]) (Some (ascii ''CVC''))) (ascii ''CVCVC'')))"
proof -
  obtain bs st where d: "disyllables = Inr (bs, st)"
    and a: "\<forall>b \<in> set bs. nucleus (syl1 b) \<noteq> nucleus (syl2 b)"
    using disyllable_nuclei_differ by blast
  have "yielded disyllables = bs" using d by (rule yielded_Inr)
  then show ?thesis using a plain_example by blast
qed

lemma shape_tags_distinct:
  "ascii ''CVCVC'' \<noteq> ascii ''CwVCVC''" "ascii ''CVCVC'' \<noteq> ascii ''NCVCVC''"
  "ascii ''CVCVC'' \<noteq> ascii ''CNVCVC''" "ascii ''CwVCVC'' \<noteq> ascii ''NCVCVC''"
  "ascii ''CwVCVC'' \<noteq> ascii ''CNVCVC''" "ascii ''NCVCVC'' \<noteq> ascii ''CNVCVC''"
  "ascii ''CVC'' \<noteq> ascii ''NCVC''" "ascii ''CVC'' \<noteq> ascii ''CNVC''"
  "ascii ''CwVC'' \<noteq> ascii ''NCVC''" "ascii ''CwVC'' \<noteq> ascii ''CNVC''"
  "ascii ''NCVC'' \<noteq> ascii ''CNVC''" "ascii ''CVC'' \<noteq> ascii ''CwVC''"
  by (simp_all add: ascii_def)

lemma cluster_not_prefix_of_simple:
  assumes "stop \<in> set STOP_ONSETS" and "nasal \<in> set NASAL_ONSETS"
    and "onset2 \<in> set SIMPLE_ONSETS"
  shows "\<not> startswith onset2 (nasal @ stop)" and "\<not> startswith onset2 (stop @ nasal)"
  using assms
  by (auto simp: STOP_ONSETS_eval NASAL_ONSETS_def SIMPLE_ONSETS_eval startswith_def)

lemma drop_nasal: "nasal \<in> set NASAL_ONSETS \<Longrightarrow> drop (Suc 0) (nasal @ stop) = stop"
  by (auto simp: NASAL_ONSETS_def)

lemma butlast_nasal: "nasal \<in> set NASAL_ONSETS \<Longrightarrow> butlast (stop @ nasal) = stop"
  by (auto simp: NASAL_ONSETS_def butlast_append)

text \<open>
  C1, as the code has it. In the CVCVC and CwVCVC families neither onset is a prefix of
  the other. In the NCVCVC and CNVCVC families the first onset is never a prefix of the
  second, and the second onset never begins with the stop of the first syllable's
  cluster; nothing more is excluded there.
\<close>

theorem onset_dissimilation_by_family:
  "\<exists>bs st. disyllables = Inr (bs, st) \<and>
     (\<forall>b \<in> set bs.
        \<not> startswith (onset (syl2 b)) (onset (syl1 b)) \<and>
        (bshape b = ascii ''CVCVC'' \<or> bshape b = ascii ''CwVCVC'' \<longrightarrow>
           \<not> startswith (onset (syl1 b)) (onset (syl2 b))) \<and>
        (bshape b = ascii ''NCVCVC'' \<longrightarrow>
           \<not> startswith (onset (syl2 b)) (drop 1 (onset (syl1 b)))) \<and>
        (bshape b = ascii ''CNVCVC'' \<longrightarrow>
           \<not> startswith (onset (syl2 b)) (butlast (onset (syl1 b)))))"
proof -
  obtain st where d: "disyllables = Inr (plain_list @ cw_list @ prenasal_list @ postnasal_list, st)"
    using disyllables_total by blast
  have "\<not> startswith (onset (syl2 b)) (onset (syl1 b)) \<and>
        (bshape b = ascii ''CVCVC'' \<or> bshape b = ascii ''CwVCVC'' \<longrightarrow>
           \<not> startswith (onset (syl1 b)) (onset (syl2 b))) \<and>
        (bshape b = ascii ''NCVCVC'' \<longrightarrow>
           \<not> startswith (onset (syl2 b)) (drop 1 (onset (syl1 b)))) \<and>
        (bshape b = ascii ''CNVCVC'' \<longrightarrow>
           \<not> startswith (onset (syl2 b)) (butlast (onset (syl1 b))))"
    if mem: "b \<in> set (plain_list @ cw_list @ prenasal_list @ postnasal_list)" for b
  proof -
    consider "b \<in> set plain_list" | "b \<in> set cw_list" | "b \<in> set prenasal_list"
      | "b \<in> set postnasal_list"
      using mem by auto
    then show ?thesis
    proof cases
      case 1
      then show ?thesis unfolding in_plain_list
        by (auto simp: cvc_def shape_tags_distinct)
    next
      case 2
      then show ?thesis unfolding in_cw_list
        by (auto simp: cvc_def shape_tags_distinct shape_tags_distinct[symmetric])
    next
      case 3
      then show ?thesis unfolding in_prenasal_list
        by (auto simp: cvc_def shape_tags_distinct shape_tags_distinct[symmetric]
            cluster_not_prefix_of_simple drop_nasal simp del: drop_append)
    next
      case 4
      then show ?thesis unfolding in_postnasal_list
        by (auto simp: cvc_def shape_tags_distinct shape_tags_distinct[symmetric]
            cluster_not_prefix_of_simple butlast_nasal)
    qed
  qed
  then show ?thesis using d by blast
qed

lemma prenasal_example:
  "Bisyllable (Monosyllable [109, 112] [105] None (Some (ascii ''NCV'')))
     (Monosyllable [109] [97] (Some [110]) (Some (ascii ''CVC''))) (ascii ''NCVCVC'')
   \<in> set (yielded disyllables)"
proof -
  have "Bisyllable (Monosyllable ([109] @ [112]) [105] None (Some (ascii ''NCV'')))
     (cvc [109] [97] [110]) (ascii ''NCVCVC'') \<in> set prenasal_list"
    unfolding in_prenasal_list
    by (intro exI[of _ "[112]"] exI[of _ "[109]"] exI[of _ "[105]"] exI[of _ "[97]"]
        exI[of _ "[110]"])
       (simp add: SIMPLE_ONSETS_eval STOP_ONSETS_eval NASAL_ONSETS_def VOWELS_eval CODAS_eval
        startswith_def)
  then show ?thesis by (simp add: yielded_disyllables cvc_def)
qed

theorem onset_dissimilation_by_family_witness:
  "Bisyllable (Monosyllable [109, 112] [105] None (Some (ascii ''NCV'')))
     (Monosyllable [109] [97] (Some [110]) (Some (ascii ''CVC''))) (ascii ''NCVCVC'')
     \<in> set (yielded disyllables) \<and>
   \<not> startswith [109] [109, 112] \<and> \<not> startswith [109] (drop 1 [109, 112])"
proof -
  obtain bs st where d: "disyllables = Inr (bs, st)"
    and a: "\<forall>b \<in> set bs.
        \<not> startswith (onset (syl2 b)) (onset (syl1 b)) \<and>
        (bshape b = ascii ''CVCVC'' \<or> bshape b = ascii ''CwVCVC'' \<longrightarrow>
           \<not> startswith (onset (syl1 b)) (onset (syl2 b))) \<and>
        (bshape b = ascii ''NCVCVC'' \<longrightarrow>
           \<not> startswith (onset (syl2 b)) (drop 1 (onset (syl1 b)))) \<and>
        (bshape b = ascii ''CNVCVC'' \<longrightarrow>
           \<not> startswith (onset (syl2 b)) (butlast (onset (syl1 b))))"
    using onset_dissimilation_by_family by blast
  have "yielded disyllables = bs" using d by (rule yielded_Inr)
  then have "Bisyllable (Monosyllable [109, 112] [105] None (Some (ascii ''NCV'')))
     (Monosyllable [109] [97] (Some [110]) (Some (ascii ''CVC''))) (ascii ''NCVCVC'') \<in> set bs"
    using prenasal_example by simp
  from a[rule_format, OF this] show ?thesis using prenasal_example by simp
qed

text \<open>
  The claim as stated fails: the prenasal family yields the onset \<open>m\<close> after the
  cluster \<open>mp\<close>, and \<open>m\<close> is a prefix of \<open>mp\<close>.
\<close>

theorem onset_dissimilation_counterexample:
  "Bisyllable (Monosyllable [109, 112] [105] None (Some (ascii ''NCV'')))
     (Monosyllable [109] [97] (Some [110]) (Some (ascii ''CVC''))) (ascii ''NCVCVC'')
     \<in> set (yielded disyllables) \<and>
   startswith
     (onset (syl1 (Bisyllable (Monosyllable [109, 112] [105] None (Some (ascii ''NCV'')))
        (Monosyllable [109] [97] (Some [110]) (Some (ascii ''CVC''))) (ascii ''NCVCVC''))))
     (onset (syl2 (Bisyllable (Monosyllable [109, 112] [105] None (Some (ascii ''NCV'')))
        (Monosyllable [109] [97] (Some [110]) (Some (ascii ''CVC''))) (ascii ''NCVCVC''))))"
  using prenasal_example by (simp add: startswith_def)

lemma cvc_no_clash:
  assumes "\<not> startswith cod (take 1 onset2)"
  shows "coda (syl2 (Bisyllable s1 (cvc onset2 vowel2 cod) shp)) \<noteq> None \<and>
         \<not> coda_clash (syl2 (Bisyllable s1 (cvc onset2 vowel2 cod) shp))"
  using assms by (simp add: cvc_def coda_clash_def governing_stop_def shape_tags_distinct)

text \<open>
  C3. Every yielded monosyllable, and the second syllable of every yielded disyllable,
  has a coda, and that coda does not begin with the first character of the stop that
  governs its onset; the descriptor \<open>(p, a, p\<hyphen>unreleased, CVC)\<close> is never yielded. Both
  generators end without an exception.
\<close>

theorem coda_exclusion:
  "(\<exists>ms. monosyllables = Inr (ms, ()) \<and>
      (\<forall>m \<in> set ms. coda m \<noteq> None \<and> \<not> coda_clash m) \<and>
      Monosyllable [112] [97] (Some [112, 794]) (Some (ascii ''CVC'')) \<notin> set ms) \<and>
   (\<exists>bs st. disyllables = Inr (bs, st) \<and>
      (\<forall>b \<in> set bs. coda (syl2 b) \<noteq> None \<and> \<not> coda_clash (syl2 b)))"
proof -
  have mono: "coda m \<noteq> None \<and> \<not> coda_clash m"
    if mem: "m \<in> set (mono_plain_list @ mono_cw_list @ mono_prenasal_list @ mono_postnasal_list)"
    for m
  proof -
    consider "m \<in> set mono_plain_list" | "m \<in> set mono_cw_list"
      | "m \<in> set mono_prenasal_list" | "m \<in> set mono_postnasal_list"
      using mem by auto
    then show ?thesis
    proof cases
      case 1
      then show ?thesis unfolding in_mono_plain_list
        by (auto simp: coda_clash_def governing_stop_def shape_tags_distinct)
    next
      case 2
      then show ?thesis unfolding in_mono_cw_list
        by (auto simp: coda_clash_def governing_stop_def shape_tags_distinct)
    next
      case 3
      then show ?thesis unfolding in_mono_prenasal_list
        by (auto simp: coda_clash_def governing_stop_def drop_nasal simp del: drop_append)
    next
      case 4
      then show ?thesis unfolding in_mono_postnasal_list
        by (auto simp: coda_clash_def governing_stop_def butlast_nasal
            shape_tags_distinct shape_tags_distinct[symmetric])
    qed
  qed
  have clash: "coda_clash (Monosyllable [112] [97] (Some [112, 794]) (Some (ascii ''CVC'')))"
    by (simp add: coda_clash_def governing_stop_def shape_tags_distinct startswith_def)
  have part1: "\<exists>ms. monosyllables = Inr (ms, ()) \<and>
      (\<forall>m \<in> set ms. coda m \<noteq> None \<and> \<not> coda_clash m) \<and>
      Monosyllable [112] [97] (Some [112, 794]) (Some (ascii ''CVC'')) \<notin> set ms"
    using monosyllables_total mono clash by blast
  obtain st where d: "disyllables = Inr (plain_list @ cw_list @ prenasal_list @ postnasal_list, st)"
    using disyllables_total by blast
  have di: "coda (syl2 b) \<noteq> None \<and> \<not> coda_clash (syl2 b)"
    if mem: "b \<in> set (plain_list @ cw_list @ prenasal_list @ postnasal_list)" for b
  proof -
    consider "b \<in> set plain_list" | "b \<in> set cw_list" | "b \<in> set prenasal_list"
      | "b \<in> set postnasal_list"
      using mem by auto
    then show ?thesis
    proof cases
      case 1
      then obtain onset1 onset2 vowel1 vowel2 where
        o2: "onset2 \<in> set SIMPLE_ONSETS" and
        b: "b = Bisyllable (Monosyllable onset1 vowel1 None (Some (ascii ''CV'')))
              (cvc onset2 vowel2 (last (allowed_codas onset2 CODAS))) (ascii ''CVCVC'')"
        unfolding in_plain_list by blast
      have "last (allowed_codas onset2 CODAS) \<in> set (allowed_codas onset2 CODAS)"
        using allowed_codas_nonempty[OF simple_onset_nonempty[OF o2]] by simp
      then have "\<not> startswith (last (allowed_codas onset2 CODAS)) (take 1 onset2)"
        unfolding in_allowed_codas by simp
      from cvc_no_clash[OF this] show ?thesis unfolding b .
    next
      case 2
      then show ?thesis unfolding in_cw_list using cvc_no_clash by blast
    next
      case 3
      then show ?thesis unfolding in_prenasal_list using cvc_no_clash by blast
    next
      case 4
      then show ?thesis unfolding in_postnasal_list using cvc_no_clash by blast
    qed
  qed
  have part2: "\<exists>bs st. disyllables = Inr (bs, st) \<and>
      (\<forall>b \<in> set bs. coda (syl2 b) \<noteq> None \<and> \<not> coda_clash (syl2 b))"
    using d di by blast
  show ?thesis using part1 part2 by (rule conjI)
qed

lemma mono_prenasal_example:
  "Monosyllable [109, 112] [105] (Some [116, 794]) (Some (ascii ''NCVC''))
     \<in> set (yielded monosyllables)"
proof -
  have "Monosyllable ([109] @ [112]) [105] (Some [116, 794]) (Some (ascii ''NCVC''))
          \<in> set mono_prenasal_list"
    unfolding in_mono_prenasal_list
    by (intro exI[of _ "[112]"] exI[of _ "[109]"] exI[of _ "[105]"] exI[of _ "[116, 794]"])
       (simp add: STOP_ONSETS_eval NASAL_ONSETS_def VOWELS_eval STOP_CODAS_def startswith_def)
  then show ?thesis by (simp add: yielded_Inr[OF monosyllables_total])
qed

theorem coda_exclusion_witness:
  "Monosyllable [109, 112] [105] (Some [116, 794]) (Some (ascii ''NCVC''))
     \<in> set (yielded monosyllables) \<and>
   \<not> coda_clash (Monosyllable [109, 112] [105] (Some [116, 794]) (Some (ascii ''NCVC''))) \<and>
   Bisyllable (Monosyllable [112] [105] None (Some (ascii ''CV'')))
     (Monosyllable [116] [97] (Some [107, 794]) (Some (ascii ''CVC''))) (ascii ''CVCVC'')
     \<in> set (yielded disyllables) \<and>
   \<not> coda_clash (Monosyllable [116] [97] (Some [107, 794]) (Some (ascii ''CVC'')))"
proof -
  obtain ms where m: "monosyllables = Inr (ms, ())"
    and ma: "\<forall>m \<in> set ms. coda m \<noteq> None \<and> \<not> coda_clash m"
    using coda_exclusion by blast
  obtain bs st where d: "disyllables = Inr (bs, st)"
    and da: "\<forall>b \<in> set bs. coda (syl2 b) \<noteq> None \<and> \<not> coda_clash (syl2 b)"
    using coda_exclusion by blast
  have ym: "yielded monosyllables = ms" using m by (rule yielded_Inr)
  have yd: "yielded disyllables = bs" using d by (rule yielded_Inr)
  have "\<not> coda_clash (Monosyllable [109, 112] [105] (Some [116, 794]) (Some (ascii ''NCVC'')))"
    using ma mono_prenasal_example ym by blast
  moreover have "\<not> coda_clash (syl2 (Bisyllable (Monosyllable [112] [105] None (Some (ascii ''CV'')))
     (Monosyllable [116] [97] (Some [107, 794]) (Some (ascii ''CVC''))) (ascii ''CVCVC'')))"
    using da plain_example yd by blast
  ultimately show ?thesis using mono_prenasal_example plain_example by simp
qed

subsection \<open>The plain family yields one disyllable per onset pair and vowel pair\<close>

lemma filter_concat_at:
  assumes "distinct xs" and "k \<in> set xs"
    and "\<And>x. x \<in> set xs \<Longrightarrow> x \<noteq> k \<Longrightarrow> filter P (f x) = []"
  shows "filter P (concat (map f xs)) = filter P (f k)"
  using assms
proof (induction xs)
  case Nil
  then show ?case by simp
next
  case (Cons x xs)
  show ?case
  proof (cases "x = k")
    case True
    then have "k \<notin> set xs" using Cons.prems(1) by simp
    then have "\<And>y. y \<in> set xs \<Longrightarrow> filter P (f y) = []"
      using Cons.prems(3) by auto
    then have "filter P (concat (map f xs)) = []"
      by (induction xs) auto
    then show ?thesis using True by simp
  next
    case False
    then have "k \<in> set xs" using Cons.prems(2) by simp
    moreover have "filter P (f x) = []" using Cons.prems(3)[of x] False by simp
    ultimately show ?thesis using Cons by simp
  qed
qed

lemma filter_map_at:
  assumes "distinct xs" and "k \<in> set xs"
    and "\<And>x. x \<in> set xs \<Longrightarrow> P (g x) \<longleftrightarrow> x = k"
  shows "filter P (map g xs) = [g k]"
  using assms
proof (induction xs)
  case Nil
  then show ?case by simp
next
  case (Cons x xs)
  show ?case
  proof (cases "x = k")
    case True
    then have "k \<notin> set xs" using Cons.prems(1) by simp
    then have "filter P (map g xs) = []"
      using Cons.prems(3) by (auto simp: filter_empty_conv)
    moreover have "P (g k)" using Cons.prems(3)[of k] True by simp
    ultimately show ?thesis using True by simp
  next
    case False
    then have "k \<in> set xs" using Cons.prems(2) by simp
    moreover have "\<not> P (g x)" using Cons.prems(3)[of x] False by simp
    ultimately show ?thesis using Cons by simp
  qed
qed

lemma plain_slot_plain_list:
  assumes "onset1 \<in> set SIMPLE_ONSETS" "onset2 \<in> set SIMPLE_ONSETS" "onset1 \<noteq> onset2"
    and "\<not> startswith onset1 onset2" "\<not> startswith onset2 onset1"
    and "vowel1 \<in> set VOWELS" "vowel2 \<in> set VOWELS" "vowel1 \<noteq> vowel2"
  shows "filter (plain_slot onset1 vowel1 onset2 vowel2) plain_list =
           [Bisyllable (Monosyllable onset1 vowel1 None (Some (ascii ''CV'')))
              (cvc onset2 vowel2 (last (allowed_codas onset2 CODAS))) (ascii ''CVCVC'')]"
proof -
  let ?P = "plain_slot onset1 vowel1 onset2 vowel2"
  let ?G = "\<lambda>o1 o2. (\<lambda>(v1, v2).
              Bisyllable (Monosyllable o1 v1 None (Some (ascii ''CV'')))
                (cvc o2 v2 (last (allowed_codas o2 CODAS))) (ascii ''CVCVC''))"
  let ?F = "\<lambda>(o1, o2). if startswith o1 o2 \<or> startswith o2 o1 then []
              else map (?G o1 o2) (permutations2 VOWELS)"
  have ko: "(onset1, onset2) \<in> set (permutations2 SIMPLE_ONSETS)"
    using assms by (simp add: perm_onsets_mem)
  have kv: "(vowel1, vowel2) \<in> set (permutations2 VOWELS)"
    using assms by (simp add: perm_vowels_mem)
  have other: "filter ?P (?F x) = []"
    if "x \<in> set (permutations2 SIMPLE_ONSETS)" "x \<noteq> (onset1, onset2)" for x
    using that by (cases x) (auto simp: filter_empty_conv plain_slot_def cvc_def)
  have "filter ?P plain_list = filter ?P (?F (onset1, onset2))"
    unfolding plain_list_def
    by (rule filter_concat_at[OF distinct_permutations2[OF distinct_SIMPLE_ONSETS] ko other])
  also have "\<dots> = filter ?P (map (?G onset1 onset2) (permutations2 VOWELS))"
    using assms by simp
  also have "\<dots> = [?G onset1 onset2 (vowel1, vowel2)]"
  proof (rule filter_map_at[OF distinct_permutations2[OF distinct_VOWELS] kv])
    fix x assume "x \<in> set (permutations2 VOWELS)"
    show "?P (?G onset1 onset2 x) \<longleftrightarrow> x = (vowel1, vowel2)"
      by (cases x) (auto simp: plain_slot_def cvc_def)
  qed
  finally show ?thesis by simp
qed

lemma plain_slot_other_lists:
  "filter (plain_slot onset1 vowel1 onset2 vowel2) cw_list = []"
  "filter (plain_slot onset1 vowel1 onset2 vowel2) prenasal_list = []"
  "filter (plain_slot onset1 vowel1 onset2 vowel2) postnasal_list = []"
  by (auto simp: filter_empty_conv in_cw_list in_prenasal_list in_postnasal_list
      plain_slot_def shape_tags_distinct shape_tags_distinct[symmetric])

text \<open>
  C2. For two different simple onsets, neither a prefix of the other, and two different
  vowels, the generator yields exactly one CVCVC disyllable with these onsets and
  nuclei; the coda of its second syllable is the last coda, in the order of \<open>CODAS\<close>
  (\<open>m\<close>, \<open>n\<close>, the velar nasal, then the unreleased \<open>p\<close>, \<open>t\<close>, \<open>k\<close>), that does not
  begin with the first character of the second onset.
\<close>

theorem plain_family_single_yield:
  assumes "onset1 \<in> set SIMPLE_ONSETS" and "onset2 \<in> set SIMPLE_ONSETS"
    and "onset1 \<noteq> onset2"
    and "\<not> startswith onset1 onset2" and "\<not> startswith onset2 onset1"
    and "vowel1 \<in> set VOWELS" and "vowel2 \<in> set VOWELS" and "vowel1 \<noteq> vowel2"
  shows "CODAS = [[109], [110], [331], [112, 794], [116, 794], [107, 794]] \<and>
    (\<exists>bs st. disyllables = Inr (bs, st) \<and>
       filter (plain_slot onset1 vowel1 onset2 vowel2) bs =
         [Bisyllable (Monosyllable onset1 vowel1 None (Some (ascii ''CV'')))
            (Monosyllable onset2 vowel2
               (Some (last (filter (\<lambda>cod. \<not> startswith cod (take 1 onset2)) CODAS)))
               (Some (ascii ''CVC'')))
            (ascii ''CVCVC'')])"
proof -
  obtain st where d: "disyllables = Inr (plain_list @ cw_list @ prenasal_list @ postnasal_list, st)"
    using disyllables_total by blast
  have "filter (plain_slot onset1 vowel1 onset2 vowel2)
          (plain_list @ cw_list @ prenasal_list @ postnasal_list) =
        [Bisyllable (Monosyllable onset1 vowel1 None (Some (ascii ''CV'')))
              (cvc onset2 vowel2 (last (allowed_codas onset2 CODAS))) (ascii ''CVCVC'')]"
    by (simp only: filter_append plain_slot_plain_list[OF assms] plain_slot_other_lists
        append_Nil2)
  then have "filter (plain_slot onset1 vowel1 onset2 vowel2)
          (plain_list @ cw_list @ prenasal_list @ postnasal_list) =
         [Bisyllable (Monosyllable onset1 vowel1 None (Some (ascii ''CV'')))
            (Monosyllable onset2 vowel2
               (Some (last (filter (\<lambda>cod. \<not> startswith cod (take 1 onset2)) CODAS)))
               (Some (ascii ''CVC'')))
            (ascii ''CVCVC'')]"
    by (simp only: cvc_def allowed_codas_def)
  with d have "\<exists>bs st. disyllables = Inr (bs, st) \<and>
       filter (plain_slot onset1 vowel1 onset2 vowel2) bs =
         [Bisyllable (Monosyllable onset1 vowel1 None (Some (ascii ''CV'')))
            (Monosyllable onset2 vowel2
               (Some (last (filter (\<lambda>cod. \<not> startswith cod (take 1 onset2)) CODAS)))
               (Some (ascii ''CVC'')))
            (ascii ''CVCVC'')]"
    by blast
  with CODAS_eval show ?thesis by (rule conjI)
qed

theorem plain_family_single_yield_witness:
  "[112] \<in> set SIMPLE_ONSETS \<and> [116] \<in> set SIMPLE_ONSETS \<and> [112] \<noteq> [116::nat] \<and>
   \<not> startswith [112] [116] \<and> \<not> startswith [116] [112] \<and>
   [105] \<in> set VOWELS \<and> [97] \<in> set VOWELS \<and> [105] \<noteq> [97::nat] \<and>
   filter (plain_slot [112] [105] [116] [97]) (yielded disyllables) =
     [Bisyllable (Monosyllable [112] [105] None (Some (ascii ''CV'')))
        (Monosyllable [116] [97] (Some [107, 794]) (Some (ascii ''CVC''))) (ascii ''CVCVC'')]"
proof -
  have h: "[112] \<in> set SIMPLE_ONSETS" "[116] \<in> set SIMPLE_ONSETS" "[112] \<noteq> [116::nat]"
    "\<not> startswith [112] [116]" "\<not> startswith [116] [112]"
    "[105] \<in> set VOWELS" "[97] \<in> set VOWELS" "[105] \<noteq> [97::nat]"
    by (simp_all add: SIMPLE_ONSETS_eval VOWELS_eval startswith_def)
  have l: "last (filter (\<lambda>cod. \<not> startswith cod (take 1 [116])) CODAS) = [107, 794]"
    by (simp add: CODAS_eval startswith_def)
  from plain_family_single_yield[OF h] obtain bs st where
    d: "disyllables = Inr (bs, st)" and
    f: "filter (plain_slot [112] [105] [116] [97]) bs =
         [Bisyllable (Monosyllable [112] [105] None (Some (ascii ''CV'')))
            (Monosyllable [116] [97]
               (Some (last (filter (\<lambda>cod. \<not> startswith cod (take 1 [116])) CODAS)))
               (Some (ascii ''CVC'')))
            (ascii ''CVCVC'')]"
    by blast
  have "yielded disyllables = bs" using d by (rule yielded_Inr)
  then show ?thesis using f h unfolding l by simp
qed

section \<open>Romanization and the lexicon filter\<close>

lemma bind_err_Inr: "bind_err m f = Inr y \<longleftrightarrow> (\<exists>x. m = Inr x \<and> f x = Inr y)"
  by (cases m) (simp_all add: bind_err_def)

lemma bind_err_simps: "bind_err (Inr x) f = f x" "bind_err (Inl e) f = Inl e"
  by (simp_all add: bind_err_def)

lemma hangul_needs_jamo:
  "hangul j2h m = Inr h \<Longrightarrow> \<exists>j. jamo m = Inr j"
  by (auto simp: hangul_def jamo_def bind_err_Inr)

lemma bi_line_defined:
  assumes "bi_romanization rom j2h entry = Inr r"
  shows "\<exists>l. bi_line rom j2h entry = Inr l"
proof -
  from assms obtain h where h: "bi_hangul j2h entry = Inr h"
    by (auto simp: bi_romanization_def bind_err_Inr)
  then obtain h1 h2 where "hangul j2h (syl1 entry) = Inr h1" "hangul j2h (syl2 entry) = Inr h2"
    by (auto simp: bi_hangul_def bind_err_Inr)
  then obtain j1 j2 where "jamo (syl1 entry) = Inr j1" "jamo (syl2 entry) = Inr j2"
    using hangul_needs_jamo by blast
  then have "bi_jamo entry = Inr (j1 @ j2)"
    by (simp add: bi_jamo_def bind_err_simps)
  then show ?thesis using h assms by (simp add: bi_line_def bind_err_simps)
qed

lemma filter_disyllables_acc:
  assumes "\<forall>entry \<in> set entries. \<exists>r. bi_romanization rom j2h entry = Inr r"
  shows "filter_disyllables rom j2h lexicon entries (rows, filtered) =
           Inr (rows @ map (line_of rom j2h)
                        (filter (\<lambda>entry. \<not> suppressed rom j2h lexicon entry) entries),
                filtered + length (filter (suppressed rom j2h lexicon) entries))"
  using assms
proof (induction entries arbitrary: rows filtered)
  case Nil
  then show ?case by simp
next
  case (Cons entry rest)
  from Cons.prems obtain r where r: "bi_romanization rom j2h entry = Inr r" by auto
  from bi_line_defined[OF r] obtain l where l: "bi_line rom j2h entry = Inr l" by blast
  have rest: "\<forall>entry \<in> set rest. \<exists>r. bi_romanization rom j2h entry = Inr r"
    using Cons.prems by simp
  show ?case
  proof (cases "r \<noteq> [] \<and> r \<in> lexicon")
    case True
    then have s: "suppressed rom j2h lexicon entry" by (simp add: suppressed_def r)
    show ?thesis using True s r Cons.IH[OF rest] by (simp add: bind_err_simps)
  next
    case False
    then have s: "\<not> suppressed rom j2h lexicon entry" by (simp add: suppressed_def r)
    show ?thesis using False s r l Cons.IH[OF rest]
      by (simp add: bind_err_simps line_of_def)
  qed
qed

text \<open>
  C8. When the romanization of every entry is computed without an exception, the rows
  written by the filtering pass are the rows of exactly the entries whose romanization
  is empty or not in the lexicon, in their order, and the reported count is the number
  of the other entries.
\<close>

theorem lexicon_filter_pass:
  assumes "\<forall>entry \<in> set entries. \<exists>r. bi_romanization rom j2h entry = Inr r"
  shows "filter_disyllables rom j2h lexicon entries ([], 0) =
           Inr (map (line_of rom j2h)
                  (filter (\<lambda>entry. \<not> suppressed rom j2h lexicon entry) entries),
                length (filter (suppressed rom j2h lexicon) entries)) \<and>
         (\<forall>entry \<in> set entries.
            \<not> suppressed rom j2h lexicon entry \<longleftrightarrow>
              (\<exists>r. bi_romanization rom j2h entry = Inr r \<and> (r = [] \<or> r \<notin> lexicon)))"
proof
  show "filter_disyllables rom j2h lexicon entries ([], 0) =
           Inr (map (line_of rom j2h)
                  (filter (\<lambda>entry. \<not> suppressed rom j2h lexicon entry) entries),
                length (filter (suppressed rom j2h lexicon) entries))"
    using filter_disyllables_acc[OF assms, of lexicon "[]" 0] by simp
  show "\<forall>entry \<in> set entries.
            \<not> suppressed rom j2h lexicon entry \<longleftrightarrow>
              (\<exists>r. bi_romanization rom j2h entry = Inr r \<and> (r = [] \<or> r \<notin> lexicon))"
    using assms by (auto simp: suppressed_def)
qed

lemmas composer_defs =
  bi_romanization_def bi_hangul_def bi_jamo_def bi_line_def hangul_def jamo_def jamo_tuple_def
  spelled_onset_def lookup_def bind_err_def romanize_def index_last_def
  HANGUL_ONSET_def HANGUL_NUCLEUS_def HANGUL_CODA_def ascii_def startswith_def opt_val_def

lemma example_romanizations:
  "bi_romanization rom_same j2h_stub pitak = Inr [12610, 12643, 12599, 12623, 4520]"
  "bi_romanization rom_same j2h_stub mpiman = Inr []"
  "bi_romanization rom_same j2h_stub pitok = Inr [12610, 12643, 12599, 12631, 4520]"
  by (simp_all add: pitak_def mpiman_def pitok_def composer_defs j2h_stub_def rom_same_def)

lemma example_lines:
  "bi_line rom_same j2h_stub mpiman =
     Inr [PyStr [109, 112], PyStr [105], PyStr [109], PyStr [97], PyStr [110],
          PyStr (ascii ''NCVCVC''), PyStr [4358, 12610, 12643, 4358, 12623, 4523],
          PyStr [], PyStr []]"
  "bi_line rom_same j2h_stub pitok =
     Inr [PyStr [112], PyStr [105], PyStr [116], PyStr [111], PyStr [107, 794],
          PyStr (ascii ''CVCVC''), PyStr [12610, 12643, 12599, 12631, 4520],
          PyStr [12610, 12643, 12599, 12631, 4520], PyStr [12610, 12643, 12599, 12631, 4520]]"
  by (simp_all add: mpiman_def pitok_def composer_defs j2h_stub_def rom_same_def)

theorem lexicon_filter_pass_witness:
  "bi_romanization rom_same j2h_stub pitak = Inr [12610, 12643, 12599, 12623, 4520] \<and>
   bi_romanization rom_same j2h_stub mpiman = Inr [] \<and>
   bi_romanization rom_same j2h_stub pitok = Inr [12610, 12643, 12599, 12631, 4520] \<and>
   filter_disyllables rom_same j2h_stub {[12610, 12643, 12599, 12623, 4520], []}
       [pitak, mpiman, pitok] ([], 0) =
     Inr ([[PyStr [109, 112], PyStr [105], PyStr [109], PyStr [97], PyStr [110],
            PyStr (ascii ''NCVCVC''), PyStr [4358, 12610, 12643, 4358, 12623, 4523],
            PyStr [], PyStr []],
           [PyStr [112], PyStr [105], PyStr [116], PyStr [111], PyStr [107, 794],
            PyStr (ascii ''CVCVC''), PyStr [12610, 12643, 12599, 12631, 4520],
            PyStr [12610, 12643, 12599, 12631, 4520], PyStr [12610, 12643, 12599, 12631, 4520]]],
          1)"
proof -
  have h: "\<forall>entry \<in> set [pitak, mpiman, pitok]. \<exists>r. bi_romanization rom_same j2h_stub entry = Inr r"
    by (simp add: example_romanizations)
  from lexicon_filter_pass[OF h, of "{[12610, 12643, 12599, 12623, 4520], []}"]
  have "filter_disyllables rom_same j2h_stub {[12610, 12643, 12599, 12623, 4520], []}
          [pitak, mpiman, pitok] ([], 0) =
        Inr (map (line_of rom_same j2h_stub)
               (filter (\<lambda>entry. \<not> suppressed rom_same j2h_stub
                   {[12610, 12643, 12599, 12623, 4520], []} entry) [pitak, mpiman, pitok]),
             length (filter (suppressed rom_same j2h_stub
                   {[12610, 12643, 12599, 12623, 4520], []}) [pitak, mpiman, pitok]))"
    by (rule conjunct1)
  then show ?thesis
    by (simp add: suppressed_def line_of_def example_romanizations example_lines)
qed

text \<open>
  C9, as the code has it. The romanization of a syllable or a disyllable is what the
  external routine returns on its Hangul string, empty or not, and an exception raised by
  the routine is the result of the attribute.
\<close>

theorem romanization_delegates:
  assumes "hangul j2h m = Inr h" and "bi_hangul j2h b = Inr h'"
  shows "romanization rom j2h m = rom h \<and> bi_romanization rom j2h b = rom h'"
  using assms by (simp add: romanization_def bi_romanization_def bind_err_simps romanize_def)

lemma example_hanguls:
  "hangul j2h_stub (Monosyllable [112] [97] (Some [110]) (Some (ascii ''CVC''))) =
     Inr [12610, 12623, 4523]"
  "hangul j2h_stub (Monosyllable [109, 112] [105] None (Some (ascii ''NCV''))) = Inr []"
  "bi_hangul j2h_stub mpiman = Inr []"
  by (simp_all add: mpiman_def composer_defs j2h_stub_def)

theorem romanization_delegates_witness:
  "hangul j2h_stub (Monosyllable [112] [97] (Some [110]) (Some (ascii ''CVC''))) =
     Inr [12610, 12623, 4523] \<and>
   bi_hangul j2h_stub mpiman = Inr [] \<and>
   romanization rom_raising j2h_stub (Monosyllable [112] [97] (Some [110]) (Some (ascii ''CVC''))) =
     Inl (KeyError [12610, 12623, 4523]) \<and>
   bi_romanization rom_raising j2h_stub mpiman = Inl (KeyError [])"
  using romanization_delegates[OF example_hanguls(1) example_hanguls(3), of rom_raising]
    example_hanguls
  by (simp add: rom_raising_def)

text \<open>
  The claim as stated fails: with a routine that raises, the attribute raises; with a
  routine that answers the empty string by a non-empty one, a syllable whose Hangul is
  empty has a non-empty romanization, so the routine was called on the empty string.
\<close>

theorem romanization_guard_counterexample:
  "romanization rom_raising j2h_stub (Monosyllable [112] [97] (Some [110]) (Some (ascii ''CVC''))) =
     Inl (KeyError [12610, 12623, 4523]) \<and>
   hangul j2h_stub (Monosyllable [109, 112] [105] None (Some (ascii ''NCV''))) = Inr [] \<and>
   romanization rom_marking j2h_stub (Monosyllable [109, 112] [105] None (Some (ascii ''NCV''))) =
     Inr (ascii ''?'') \<and>
   bi_hangul j2h_stub mpiman = Inr [] \<and>
   bi_romanization rom_marking j2h_stub mpiman = Inr (ascii ''?'')"
  by (simp add: romanization_def bi_romanization_def example_hanguls bind_err_simps
      romanize_def rom_raising_def rom_marking_def)

section \<open>The sampler\<close>

lemma column_names_distinct:
  "ascii ''lexicality'' \<noteq> ascii ''memo''"
  "ascii ''lexicality'' \<noteq> ascii ''shape''" "ascii ''memo'' \<noteq> ascii ''shape''"
  "ascii ''lexicality'' \<noteq> ascii ''onset1''" "ascii ''memo'' \<noteq> ascii ''onset1''"
  "ascii ''lexicality'' \<noteq> ascii ''nucleus1''" "ascii ''memo'' \<noteq> ascii ''nucleus1''"
  "ascii ''lexicality'' \<noteq> ascii ''onset2''" "ascii ''memo'' \<noteq> ascii ''onset2''"
  "ascii ''lexicality'' \<noteq> ascii ''nucleus2''" "ascii ''memo'' \<noteq> ascii ''nucleus2''"
  "ascii ''lexicality'' \<noteq> ascii ''coda''" "ascii ''memo'' \<noteq> ascii ''coda''"
  "ascii ''transcription'' \<noteq> ascii ''shape''"
  "ascii ''transcription'' \<noteq> ascii ''lexicality''"
  "ascii ''transcription'' \<noteq> ascii ''memo''"
  by (simp_all add: ascii_def)

lemma transcription_of_strings:
  assumes "r (ascii ''onset1'') = Some (PyStr a)" and "r (ascii ''nucleus1'') = Some (PyStr b)"
    and "r (ascii ''onset2'') = Some (PyStr c)" and "r (ascii ''nucleus2'') = Some (PyStr d)"
    and "r (ascii ''coda'') = Some (PyStr e)"
  shows "transcription_of r = Inr (PyStr (a @ b @ c @ d @ e))"
  using assms by (simp add: transcription_of_def lookup_def bind_err_simps str_add_def)


lemma annotated_row_cells:
  "annotated_row shp ons judgment (ascii ''lexicality'') = Some (PyStr (ascii judgment))"
  "annotated_row shp ons judgment (ascii ''memo'') = Some (PyStr [])"
  "annotated_row shp ons judgment (ascii ''shape'') = Some (PyStr (ascii shp))"
  "annotated_row shp ons judgment (ascii ''onset1'') = Some (PyStr [])"
  "annotated_row shp ons judgment (ascii ''nucleus1'') = Some (PyStr [])"
  "annotated_row shp ons judgment (ascii ''onset2'') = Some (PyStr ons)"
  "annotated_row shp ons judgment (ascii ''nucleus2'') = Some (PyStr [97])"
  "annotated_row shp ons judgment (ascii ''coda'') = Some (PyStr [110])"
  by (simp_all add: annotated_row_def ascii_def)


subsection \<open>Grouping by shape\<close>

lemma keys_append_by_shape:
  "fst ` set (append_by_shape d k r) = insert k (fst ` set d)"
proof (induction d)
  case Nil
  then show ?case by simp
next
  case (Cons p d)
  obtain k' rs where p: "p = (k', rs)" by (cases p)
  show ?case by (cases "k' = k") (simp_all add: p Cons.IH insert_commute)
qed

lemma distinct_append_by_shape:
  "distinct (map fst d) \<Longrightarrow> distinct (map fst (append_by_shape d k r))"
proof (induction d)
  case Nil
  then show ?case by simp
next
  case (Cons p d)
  obtain k' rs where p: "p = (k', rs)" by (cases p)
  have "k' \<notin> fst ` set (append_by_shape d k r)" if "k' \<noteq> k"
    using that Cons.prems by (simp add: keys_append_by_shape p)
  then show ?case using Cons by (auto simp: p)
qed

lemma rows_append_by_shape:
  "mset (concat (map snd (append_by_shape d k r))) = mset (concat (map snd d)) + {#r#}"
  by (induction d) auto

lemma map_of_append_by_shape:
  "map_of (append_by_shape d k r) =
     (map_of d)(k \<mapsto> (case map_of d k of None \<Rightarrow> [r] | Some rs \<Rightarrow> rs @ [r]))"
  by (induction d) (auto simp: fun_eq_iff)

lemma distinct_keys_fold:
  "distinct (map fst d) \<Longrightarrow>
     distinct (map fst (fold (\<lambda>(shp, r) d. append_by_shape d shp r) ys d))"
  by (induction ys arbitrary: d) (auto simp: distinct_append_by_shape)

lemma keys_fold:
  "fst ` set (fold (\<lambda>(shp, r) d. append_by_shape d shp r) ys d) =
     fst ` set d \<union> fst ` set ys"
proof (induction ys arbitrary: d)
  case Nil
  then show ?case by simp
next
  case (Cons y ys)
  obtain shp r where y: "y = (shp, r)" by (cases y)
  have "fst ` set (fold (\<lambda>(shp, r) d. append_by_shape d shp r) ys (append_by_shape d shp r)) =
          insert shp (fst ` set d) \<union> fst ` set ys"
    unfolding Cons.IH keys_append_by_shape ..
  then show ?case by (simp add: y)
qed

lemma rows_fold:
  "mset (concat (map snd (fold (\<lambda>(shp, r) d. append_by_shape d shp r) ys d))) =
     mset (concat (map snd d)) + mset (map snd ys)"
  by (induction ys arbitrary: d) (auto simp: rows_append_by_shape)

lemma map_of_fold:
  "map_of (fold (\<lambda>(shp, r) d. append_by_shape d shp r) ys d) k =
     (case map_of d k of
        None \<Rightarrow> (if filter (\<lambda>p. fst p = k) ys = [] then None
                 else Some (map snd (filter (\<lambda>p. fst p = k) ys)))
      | Some rs \<Rightarrow> Some (rs @ map snd (filter (\<lambda>p. fst p = k) ys)))"
proof (induction ys arbitrary: d)
  case Nil
  then show ?case by (simp split: option.splits)
next
  case (Cons y ys)
  obtain shp r where y: "y = (shp, r)" by (cases y)
  show ?case
    by (simp add: y Cons.IH map_of_append_by_shape split: option.splits)
qed

lemma distinct_group_keys: "distinct (map fst (group_rows ys))"
  unfolding group_rows_def by (rule distinct_keys_fold) simp

lemma group_keys: "fst ` set (group_rows ys) = fst ` set ys"
  unfolding group_rows_def by (simp add: keys_fold)

lemma group_rows_mset: "mset (concat (map snd (group_rows ys))) = mset (map snd ys)"
  unfolding group_rows_def by (simp add: rows_fold)

lemma group_members:
  assumes "(k, rs) \<in> set (group_rows ys)"
  shows "rs = map snd (filter (\<lambda>p. fst p = k) ys)"
proof -
  have "map_of (group_rows ys) k = Some rs"
    using assms distinct_group_keys by simp
  then show ?thesis
    unfolding group_rows_def by (simp add: map_of_fold split: if_splits)
qed

subsection \<open>Writing a list\<close>

lemma writerows_snd:
  "snd (writerows f rows) = (if \<forall>r \<in> set rows. dom r \<subseteq> dom f then None else Some ValueError)"
proof (induction rows)
  case Nil
  then show ?case by simp
next
  case (Cons r rows)
  obtain ws e where w: "writerows f rows = (ws, e)" by (cases "writerows f rows")
  show ?case
  proof (cases "dom r \<subseteq> dom f")
    case True
    then show ?thesis using Cons w by (simp add: dict_to_list_def)
  next
    case False
    then show ?thesis by (simp add: dict_to_list_def)
  qed
qed

lemma writerows_fst:
  "fst (writerows f rows) = map (cells f) (takeWhile (\<lambda>r. dom r \<subseteq> dom f) rows)"
proof (induction rows)
  case Nil
  then show ?case by simp
next
  case (Cons r rows)
  obtain ws e where w: "writerows f rows = (ws, e)" by (cases "writerows f rows")
  show ?case
  proof (cases "dom r \<subseteq> dom f")
    case True
    then show ?thesis using Cons w by (simp add: dict_to_list_def)
  next
    case False
    then show ?thesis by (simp add: dict_to_list_def)
  qed
qed

lemma writerows_all:
  assumes "\<forall>r \<in> set rows. dom r \<subseteq> dom f"
  shows "writerows f rows = (map (cells f) rows, None)"
  using assms by (induction rows) (simp_all add: dict_to_list_def)

lemma cells_keep: "f k \<noteq> None \<Longrightarrow> r k = Some v \<Longrightarrow> cells f r k = Some v"
  by (auto simp: cells_def)

lemma cells_same:
  assumes "dom r = dom f"
  shows "cells f r = r"
proof
  fix k
  show "cells f r k = r k"
  proof (cases "r k")
    case None
    then have "f k = None" using assms by (metis domIff)
    then show ?thesis using None by (simp add: cells_def)
  next
    case (Some v)
    then have "f k \<noteq> None" using assms by (metis domIff option.distinct(1))
    then show ?thesis using Some by (auto simp: cells_def)
  qed
qed

lemma mset_takeWhile: "mset (takeWhile P xs) \<subseteq># mset xs"
proof -
  have "mset xs = mset (takeWhile P xs) + mset (dropWhile P xs)"
    by (metis takeWhile_dropWhile_id mset_append)
  then show ?thesis by (metis mset_subset_eq_add_left)
qed

lemma main_written:
  assumes "proc_file mono_rows = Inr ms" and "proc_file di_rows = Inr ds"
    and "sample_groups shuffle (group_rows (ms @ ds)) ([], [], g0) = Inr (a, b, g1)"
    and "shuffle a g1 = (a', g2)" and "shuffle b g2 = (b', g3)"
    and "ms @ ds \<noteq> []"
  shows "main shuffle g0 mono_rows di_rows =
           (case snd (writerows (snd (last (ms @ ds))) a') of
              Some e \<Rightarrow>
                (Some e, \<lparr>list1_file = Some (fst (writerows (snd (last (ms @ ds))) a')),
                           list2_file = None\<rparr>)
            | None \<Rightarrow>
                (snd (writerows (snd (last (ms @ ds))) b'),
                 \<lparr>list1_file = Some (fst (writerows (snd (last (ms @ ds))) a')),
                  list2_file = Some (fst (writerows (snd (last (ms @ ds))) b'))\<rparr>))"
proof -
  obtain ws1 e1 where w1: "writerows (snd (last (ms @ ds))) a' = (ws1, e1)"
    by (cases "writerows (snd (last (ms @ ds))) a'")
  obtain ws2 e2 where w2: "writerows (snd (last (ms @ ds))) b' = (ws2, e2)"
    by (cases "writerows (snd (last (ms @ ds))) b'")
  have "main shuffle g0 mono_rows di_rows =
          (case e1 of
             Some e \<Rightarrow> (Some e, \<lparr>list1_file = Some ws1, list2_file = None\<rparr>)
           | None \<Rightarrow> (e2, \<lparr>list1_file = Some ws1, list2_file = Some ws2\<rparr>))"
    unfolding main_def assms(1,2,3,4,5) sum.case prod.case if_not_P[OF assms(6)] w1 w2
    by (cases e1) simp_all
  then show ?thesis by (simp only: w1 w2 fst_conv snd_conv)
qed

lemma main_no_rows:
  assumes "proc_file mono_rows = Inr ms" and "proc_file di_rows = Inr ds"
    and "sample_groups shuffle (group_rows (ms @ ds)) ([], [], g0) = Inr st"
    and "ms @ ds = []"
  shows "main shuffle g0 mono_rows di_rows =
           (Some UnboundLocalError, \<lparr>list1_file = Some [], list2_file = None\<rparr>)"
proof -
  obtain a b g1 where st: "st = (a, b, g1)" by (cases st)
  obtain a' g2 where s1: "shuffle a g1 = (a', g2)" by (cases "shuffle a g1")
  obtain b' g3 where s2: "shuffle b g2 = (b', g3)" by (cases "shuffle b g2")
  show ?thesis
    unfolding main_def assms(1,2) assms(3)[unfolded st] sum.case prod.case s1 s2 if_P[OF assms(4)]
    by (rule refl)
qed

subsection \<open>The sampling loop\<close>

lemma proc_row_kept:
  assumes "r (ascii ''lexicality'') = Some (PyStr (ascii ''FALSE''))"
    and "r (ascii ''memo'') = Some mm" and "r (ascii ''shape'') = Some shp"
    and "r (ascii ''onset1'') = Some (PyStr a)" and "r (ascii ''nucleus1'') = Some (PyStr b)"
    and "r (ascii ''onset2'') = Some (PyStr c)" and "r (ascii ''nucleus2'') = Some (PyStr d)"
    and "r (ascii ''coda'') = Some (PyStr e)"
  shows "proc_row r =
           Inr (Some (shp, (r(ascii ''lexicality'' := None, ascii ''memo'' := None))
                             (ascii ''transcription'' \<mapsto> PyStr (a @ b @ c @ d @ e))))"
proof -
  let ?r2 = "r(ascii ''lexicality'' := None, ascii ''memo'' := None)"
  have t: "transcription_of ?r2 = Inr (PyStr (a @ b @ c @ d @ e))"
    by (rule transcription_of_strings)
       (simp_all add: assms column_names_distinct column_names_distinct[symmetric])
  show ?thesis
    using assms(1,2,3) t
    by (simp add: proc_row_def lookup_def delitem_def bind_err_simps
        column_names_distinct column_names_distinct[symmetric])
qed

lemma proc_row_annotated:
  "proc_row (annotated_row shp ons ''FALSE'') = Inr (Some (PyStr (ascii shp), retained_row shp ons))"
proof -
  note c = annotated_row_cells[of shp ons "''FALSE''"]
  show ?thesis using proc_row_kept[OF c] by (simp add: retained_row_def)
qed

lemma proc_file_replicate:
  assumes "proc_row r = Inr (Some y)"
  shows "proc_file (replicate n r) = Inr (replicate n y)"
  by (induction n) (simp_all add: assms bind_err_simps)

lemma proc_file_append:
  assumes "proc_file xs = Inr ys" and "proc_file xs' = Inr ys'"
  shows "proc_file (xs @ xs') = Inr (ys @ ys')"
  using assms
proof (induction xs arbitrary: ys)
  case Nil
  then show ?case by simp
next
  case (Cons x xs)
  from Cons.prems(1) obtain y zs where y: "proc_row x = Inr y" and zs: "proc_file xs = Inr zs"
    and ys: "ys = (case y of None \<Rightarrow> zs | Some p \<Rightarrow> p # zs)"
    by (auto simp: bind_err_Inr)
  show ?case using Cons.IH[OF zs Cons.prems(2)] y ys
    by (simp add: bind_err_simps split: option.splits)
qed

lemma sample_groups_Inl:
  assumes "sample_groups shuffle G (list1, list2, g) = Inl e"
  shows "\<exists>k rs. (k, rs) \<in> set G \<and> length rs < 2 * size_of k \<and> e = AssertionError k (length rs)"
  using assms
proof (induction G arbitrary: list1 list2 g)
  case Nil
  then show ?case by simp
next
  case (Cons p G)
  obtain shp entries where p: "p = (shp, entries)" by (cases p)
  show ?case
  proof (cases "length entries \<ge> size_of shp * 2")
    case False
    then have "e = AssertionError shp (length entries)"
      using Cons.prems by (simp add: p Let_def)
    moreover have "length entries < 2 * size_of shp" using False by simp
    ultimately show ?thesis unfolding p by (intro exI[of _ shp] exI[of _ entries]) simp
  next
    case True
    obtain elist g' where sh: "shuffle entries g = (elist, g')" by (cases "shuffle entries g")
    from Cons.prems True sh have
      "sample_groups shuffle G
         (list1 @ take (size_of shp) elist, list2 @ take (size_of shp) (drop (size_of shp) elist), g')
       = Inl e"
      by (simp add: p Let_def)
    from Cons.IH[OF this] show ?thesis by auto
  qed
qed

lemma sample_groups_deficient:
  assumes "(k, rs) \<in> set G" and "length rs < 2 * size_of k"
  shows "\<exists>e. sample_groups shuffle G (list1, list2, g) = Inl e"
  using assms
proof (induction G arbitrary: list1 list2 g)
  case Nil
  then show ?case by simp
next
  case (Cons p G)
  obtain shp entries where p: "p = (shp, entries)" by (cases p)
  show ?case
  proof (cases "length entries \<ge> size_of shp * 2")
    case False
    then show ?thesis by (simp add: p Let_def)
  next
    case True
    obtain elist g' where sh: "shuffle entries g = (elist, g')" by (cases "shuffle entries g")
    from True Cons.prems p have "(k, rs) \<in> set G" by auto
    from Cons.IH[OF this Cons.prems(2)] show ?thesis using True sh by (simp add: p Let_def)
  qed
qed

lemma two_sizes:
  "2 * size_of k =
     (if k \<in> set (map (\<lambda>t. PyStr (ascii t)) [''CVC'', ''CwVC'', ''CNVC'', ''NCVC'']) then 10 else 20)"
  by (simp add: size_of_def)

lemma sampler_abort_sizes:
  assumes "proc_file mono_rows = Inr ms" and "proc_file di_rows = Inr ds"
  shows "((\<exists>shp n. fst (main shuffle g0 mono_rows di_rows) = Some (AssertionError shp n)) \<longleftrightarrow>
          (\<exists>k \<in> fst ` set (ms @ ds).
             length (filter (\<lambda>p. fst p = k) (ms @ ds)) <
               2 * size_of k)) \<and>
         (\<forall>shp n. fst (main shuffle g0 mono_rows di_rows) = Some (AssertionError shp n) \<longrightarrow>
            snd (main shuffle g0 mono_rows di_rows) = \<lparr>list1_file = None, list2_file = None\<rparr> \<and>
            shp \<in> fst ` set (ms @ ds) \<and>
            n = length (filter (\<lambda>p. fst p = shp) (ms @ ds)) \<and>
            n < 2 * size_of shp)"
proof (cases "sample_groups shuffle (group_rows (ms @ ds)) ([], [], g0)")
  case (Inl e)
  then have m: "main shuffle g0 mono_rows di_rows = (Some e, \<lparr>list1_file = None, list2_file = None\<rparr>)"
    by (simp add: main_def assms)
  from sample_groups_Inl[OF Inl] obtain k rs where
    krs: "(k, rs) \<in> set (group_rows (ms @ ds))" and small: "length rs < 2 * size_of k"
    and e: "e = AssertionError k (length rs)"
    by blast
  have kin: "k \<in> fst ` set (ms @ ds)"
    using krs group_keys[of "ms @ ds"] by force
  have len: "length rs = length (filter (\<lambda>p. fst p = k) (ms @ ds))"
    using group_members[OF krs] by simp
  have len': "length (filter (\<lambda>p. fst p = k) (ms @ ds)) < 2 * size_of k"
    using len small by (simp only:)
  have A: "\<exists>shp n. fst (main shuffle g0 mono_rows di_rows) = Some (AssertionError shp n)"
    unfolding m e by simp
  have B: "\<exists>k \<in> fst ` set (ms @ ds).
             length (filter (\<lambda>p. fst p = k) (ms @ ds)) < 2 * size_of k"
    using kin len' by blast
  have C: "snd (main shuffle g0 mono_rows di_rows) = \<lparr>list1_file = None, list2_file = None\<rparr> \<and>
            shp \<in> fst ` set (ms @ ds) \<and>
            n = length (filter (\<lambda>p. fst p = shp) (ms @ ds)) \<and>
            n < 2 * size_of shp"
    if "fst (main shuffle g0 mono_rows di_rows) = Some (AssertionError shp n)" for shp n
  proof -
    from that have "shp = k" "n = length rs" unfolding m e by simp_all
    then show ?thesis using kin len len' unfolding m by (simp only: snd_conv simp_thms)
  qed
  show ?thesis using A B C by blast
next
  case (Inr st)
  obtain list1 list2 g1 where st: "st = (list1, list2, g1)" by (cases st)
  obtain list1' g2 where s1: "shuffle list1 g1 = (list1', g2)" by (cases "shuffle list1 g1")
  obtain list2' g3 where s2: "shuffle list2 g2 = (list2', g3)" by (cases "shuffle list2 g2")
  have m: "\<not> (\<exists>shp n. fst (main shuffle g0 mono_rows di_rows) = Some (AssertionError shp n))"
  proof (cases "ms @ ds = []")
    case True
    show ?thesis unfolding main_no_rows[OF assms Inr True] by simp
  next
    case False
    show ?thesis
      unfolding main_written[OF assms Inr[unfolded st] s1 s2 False]
      by (simp add: writerows_snd split: option.splits)
  qed
  have "\<not> length (filter (\<lambda>p. fst p = k) (ms @ ds)) < 2 * size_of k"
    if "k \<in> fst ` set (ms @ ds)" for k
  proof
    assume small: "length (filter (\<lambda>p. fst p = k) (ms @ ds)) < 2 * size_of k"
    from that obtain rs where krs: "(k, rs) \<in> set (group_rows (ms @ ds))"
      using group_keys[of "ms @ ds"] by force
    have "length rs < 2 * size_of k" using group_members[OF krs] small by simp
    from sample_groups_deficient[OF krs this] Inr show False by (metis Inl_Inr_False)
  qed
  then show ?thesis using m by blast
qed

text \<open>
  C6. When both tables are read without an exception, the run ends with the failed
  assertion exactly when some shape among the retained rows has fewer than twice its draw
  size of them (fewer than 10 for CVC, CwVC, CNVC and NCVC, fewer than 20 for any other
  shape). The assertion reports a shape of the retained rows and the number of its rows,
  which is below the threshold, and neither list file has been opened.
\<close>

theorem sampler_aborts_on_small_group:
  assumes "proc_file mono_rows = Inr ms" and "proc_file di_rows = Inr ds"
  shows "((\<exists>shp n. fst (main shuffle g0 mono_rows di_rows) = Some (AssertionError shp n)) \<longleftrightarrow>
          (\<exists>k \<in> fst ` set (ms @ ds).
             length (filter (\<lambda>p. fst p = k) (ms @ ds)) <
               (if k \<in> set (map (\<lambda>t. PyStr (ascii t)) [''CVC'', ''CwVC'', ''CNVC'', ''NCVC''])
                then 10 else 20))) \<and>
         (\<forall>shp n. fst (main shuffle g0 mono_rows di_rows) = Some (AssertionError shp n) \<longrightarrow>
            snd (main shuffle g0 mono_rows di_rows) = \<lparr>list1_file = None, list2_file = None\<rparr> \<and>
            shp \<in> fst ` set (ms @ ds) \<and>
            n = length (filter (\<lambda>p. fst p = shp) (ms @ ds)) \<and>
            n < (if shp \<in> set (map (\<lambda>t. PyStr (ascii t)) [''CVC'', ''CwVC'', ''CNVC'', ''NCVC''])
                 then 10 else 20))"
  using sampler_abort_sizes[OF assms, of shuffle g0] unfolding two_sizes .

theorem sampler_aborts_on_small_group_witness:
  "proc_file (replicate 9 (annotated_row ''CVC'' [112] ''FALSE'')) =
     Inr (replicate 9 (PyStr (ascii ''CVC''), retained_row ''CVC'' [112])) \<and>
   proc_file [] = Inr [] \<and>
   main shuffle_rev 0 (replicate 9 (annotated_row ''CVC'' [112] ''FALSE'')) [] =
     (Some (AssertionError (PyStr (ascii ''CVC'')) 9), \<lparr>list1_file = None, list2_file = None\<rparr>)"
proof -
  let ?mono = "replicate 9 (annotated_row ''CVC'' [112] ''FALSE'')"
  let ?ms = "replicate 9 (PyStr (ascii ''CVC''), retained_row ''CVC'' [112])"
  have h1: "proc_file ?mono = Inr ?ms"
    by (rule proc_file_replicate[OF proc_row_annotated])
  have h2: "proc_file [] = Inr []" by simp
  note t = sampler_aborts_on_small_group[OF h1 h2, of shuffle_rev 0]
  have small: "\<exists>k \<in> fst ` set (?ms @ []).
             length (filter (\<lambda>p. fst p = k) (?ms @ [])) <
               (if k \<in> set (map (\<lambda>t. PyStr (ascii t)) [''CVC'', ''CwVC'', ''CNVC'', ''NCVC''])
                then 10 else 20)"
    by simp
  with t obtain shp n where
    f: "fst (main shuffle_rev 0 ?mono []) = Some (AssertionError shp n)"
    by blast
  with t have s: "snd (main shuffle_rev 0 ?mono []) = \<lparr>list1_file = None, list2_file = None\<rparr>"
    and k: "shp \<in> fst ` set (?ms @ [])"
    and n: "n = length (filter (\<lambda>p. fst p = shp) (?ms @ []))"
    by blast+
  from k have shp: "shp = PyStr (ascii ''CVC'')" by simp
  from n shp have "n = 9" by simp
  with f s shp have "main shuffle_rev 0 ?mono [] =
     (Some (AssertionError (PyStr (ascii ''CVC'')) 9), \<lparr>list1_file = None, list2_file = None\<rparr>)"
    by (simp add: prod_eq_iff)
  with h1 h2 show ?thesis by simp
qed

subsection \<open>Balanced lists\<close>

lemma proc_row_shape:
  assumes "proc_row r = Inr (Some (shp, r'))"
  shows "r' (ascii ''shape'') = Some shp"
proof -
  from assms obtain r2 t where l: "lookup r2 (ascii ''shape'') = Inr shp"
    and r': "r' = r2(ascii ''transcription'' \<mapsto> t)"
    by (auto simp: proc_row_def bind_err_Inr split: if_splits)
  from l have "r2 (ascii ''shape'') = Some shp"
    by (simp add: lookup_def split: option.splits)
  then show ?thesis by (simp add: r' column_names_distinct[symmetric])
qed

lemma proc_file_shape:
  assumes "proc_file rows = Inr ys" and "(shp, r') \<in> set ys"
  shows "r' (ascii ''shape'') = Some shp"
  using assms
proof (induction rows arbitrary: ys)
  case Nil
  then show ?case by simp
next
  case (Cons x xs)
  from Cons.prems(1) obtain y zs where y: "proc_row x = Inr y" and zs: "proc_file xs = Inr zs"
    and ys: "ys = (case y of None \<Rightarrow> zs | Some p \<Rightarrow> p # zs)"
    by (auto simp: bind_err_Inr)
  show ?case
  proof (cases "(shp, r') \<in> set zs")
    case True
    then show ?thesis using Cons.IH[OF zs] by simp
  next
    case False
    then have "y = Some (shp, r')" using Cons.prems(2) ys by (cases y) auto
    then show ?thesis using y proc_row_shape by simp
  qed
qed

lemma group_rows_shape:
  assumes "proc_file mono_rows = Inr ms" and "proc_file di_rows = Inr ds"
    and "(k, rs) \<in> set (group_rows (ms @ ds))" and "r \<in> set rs"
  shows "r (ascii ''shape'') = Some k"
proof -
  from group_members[OF assms(3)] assms(4) have "(k, r) \<in> set (ms @ ds)" by auto
  then consider "(k, r) \<in> set ms" | "(k, r) \<in> set ds" by auto
  then show ?thesis
    using proc_file_shape[OF assms(1)] proc_file_shape[OF assms(2)] by cases auto
qed

lemma permuting_length: "permuting shuffle \<Longrightarrow> length (fst (shuffle xs g)) = length xs"
  unfolding permuting_def by (metis size_mset)

lemma permuting_set: "permuting shuffle \<Longrightarrow> set (fst (shuffle xs g)) = set xs"
  unfolding permuting_def by (metis set_mset_mset)

lemma permuting_shape_count:
  "permuting shuffle \<Longrightarrow> shape_count s (fst (shuffle xs g)) = shape_count s xs"
  unfolding permuting_def shape_count_def by (metis mset_filter size_mset)

lemma shape_count_append: "shape_count s (xs @ ys) = shape_count s xs + shape_count s ys"
  by (simp add: shape_count_def)

lemma shape_count_uniform:
  assumes "\<forall>r \<in> set xs. r (ascii ''shape'') = Some k"
  shows "shape_count s xs = (if s = k then length xs else 0)"
  using assms by (induction xs) (auto simp: shape_count_def)

lemma sample_groups_counts:
  assumes "permuting shuffle"
    and "sample_groups shuffle G (list1, list2, g) = Inr (list1', list2', g')"
    and "distinct (map fst G)"
    and "\<forall>(k, rs) \<in> set G. \<forall>r \<in> set rs. r (ascii ''shape'') = Some k"
  shows "shape_count s list1' = shape_count s list1 + (if s \<in> fst ` set G then size_of s else 0) \<and>
         shape_count s list2' = shape_count s list2 + (if s \<in> fst ` set G then size_of s else 0) \<and>
         length list1' = length list1 + sum_list (map (\<lambda>p. size_of (fst p)) G) \<and>
         length list2' = length list2 + sum_list (map (\<lambda>p. size_of (fst p)) G)"
  using assms(2,3,4)
proof (induction G arbitrary: list1 list2 g)
  case Nil
  then show ?case by simp
next
  case (Cons p G)
  obtain shp entries where p: "p = (shp, entries)" by (cases p)
  obtain elist g1 where sh: "shuffle entries g = (elist, g1)" by (cases "shuffle entries g")
  have big: "size_of shp * 2 \<le> length entries"
    using Cons.prems(1) by (auto simp: p Let_def split: if_splits)
  have len: "length elist = length entries"
    using permuting_length[OF assms(1), of entries g] sh by simp
  have "set elist = set entries"
    using permuting_set[OF assms(1), of entries g] sh by simp
  then have uni: "\<forall>r \<in> set elist. r (ascii ''shape'') = Some shp"
    using Cons.prems(3) by (auto simp: p)
  let ?a = "take (size_of shp) elist"
  let ?b = "take (size_of shp) (drop (size_of shp) elist)"
  have la: "length ?a = size_of shp" and lb: "length ?b = size_of shp"
    using big len by simp_all
  have ua: "\<forall>r \<in> set ?a. r (ascii ''shape'') = Some shp"
    using uni by (meson in_set_takeD)
  have ub: "\<forall>r \<in> set ?b. r (ascii ''shape'') = Some shp"
    using uni by (meson in_set_takeD in_set_dropD)
  have ca: "shape_count s ?a = (if s = shp then size_of shp else 0)"
    using shape_count_uniform[OF ua, of s] la by simp
  have cb: "shape_count s ?b = (if s = shp then size_of shp else 0)"
    using shape_count_uniform[OF ub, of s] lb by simp
  have rec: "sample_groups shuffle G (list1 @ ?a, list2 @ ?b, g1) = Inr (list1', list2', g')"
    using Cons.prems(1) big sh by (simp add: p Let_def)
  have d: "distinct (map fst G)" and fresh: "shp \<notin> fst ` set G"
    using Cons.prems(2) by (simp_all add: p)
  have u: "\<forall>(k, rs) \<in> set G. \<forall>r \<in> set rs. r (ascii ''shape'') = Some k"
    using Cons.prems(3) by simp
  note ih = Cons.IH[OF rec d u]
  show ?case
    using ih fresh ca cb la lb by (auto simp: p shape_count_append)
qed

lemma take_take_drop_mset: "mset (take n xs) + mset (take n (drop n xs)) \<subseteq># mset xs"
proof -
  have "mset xs = mset (take n xs) + mset (drop n xs)"
    by (metis append_take_drop_id mset_append)
  moreover have "mset (drop n xs) = mset (take n (drop n xs)) + mset (drop n (drop n xs))"
    by (metis append_take_drop_id mset_append)
  ultimately have "mset xs = (mset (take n xs) + mset (take n (drop n xs))) + mset (drop n (drop n xs))"
    by (simp add: add.assoc)
  then show ?thesis by (metis mset_subset_eq_add_left)
qed

lemma distinct_map_submultiset:
  assumes "mset xs \<subseteq># mset ys" and "distinct (map f ys)"
  shows "distinct (map f xs)"
proof -
  have "mset (map f xs) \<subseteq># mset (map f ys)"
    using assms(1) by (simp add: image_mset_subseteq_mono)
  then have "count (mset (map f xs)) a \<le> count (mset (map f ys)) a" for a
    by (rule mset_subset_eq_count)
  moreover have "count (mset (map f ys)) a \<le> 1" for a
    using assms(2) by (simp add: distinct_count_atmost_1)
  ultimately have "count (mset (map f xs)) a \<le> 1" for a
    by (meson le_trans)
  then show ?thesis
    by (metis count_mset_0_iff distinct_count_atmost_1 le_antisym less_one not_le zero_le)
qed

lemma sample_groups_mset:
  assumes "permuting shuffle"
    and "sample_groups shuffle G (list1, list2, g) = Inr (list1', list2', g')"
  shows "mset list1' + mset list2' \<subseteq># mset list1 + mset list2 + mset (concat (map snd G))"
  using assms(2)
proof (induction G arbitrary: list1 list2 g)
  case Nil
  then show ?case by simp
next
  case (Cons p G)
  obtain shp entries where p: "p = (shp, entries)" by (cases p)
  obtain elist g1 where sh: "shuffle entries g = (elist, g1)" by (cases "shuffle entries g")
  have big: "size_of shp * 2 \<le> length entries"
    using Cons.prems by (auto simp: p Let_def split: if_splits)
  have e: "mset elist = mset entries"
    using assms(1) sh unfolding permuting_def by (metis fst_conv)
  let ?a = "take (size_of shp) elist"
  let ?b = "take (size_of shp) (drop (size_of shp) elist)"
  have rec: "sample_groups shuffle G (list1 @ ?a, list2 @ ?b, g1) = Inr (list1', list2', g')"
    using Cons.prems big sh by (simp add: p Let_def)
  have "mset list1' + mset list2' \<subseteq>#
          mset (list1 @ ?a) + mset (list2 @ ?b) + mset (concat (map snd G))"
    by (rule Cons.IH[OF rec])
  also have "\<dots> = mset list1 + mset list2 + (mset ?a + mset ?b) + mset (concat (map snd G))"
    by simp
  also have "\<dots> \<subseteq># mset list1 + mset list2 + mset entries + mset (concat (map snd G))"
    using take_take_drop_mset[of "size_of shp" elist] unfolding e
    by (simp add: mset_subset_eq_mono_add_left_cancel mset_subset_eq_mono_add_right_cancel)
  also have "\<dots> = mset list1 + mset list2 + mset (concat (map snd (p # G)))"
    by (simp add: p)
  finally show ?case .
qed

lemma sample_groups_succeeds:
  assumes "\<forall>(k, rs) \<in> set G. 2 * size_of k \<le> length rs"
  shows "\<exists>list1' list2' g'. sample_groups shuffle G (list1, list2, g) = Inr (list1', list2', g')"
proof (cases "sample_groups shuffle G (list1, list2, g)")
  case (Inl e)
  from sample_groups_Inl[OF Inl] assms show ?thesis by force
next
  case (Inr st)
  then show ?thesis by (cases st) auto
qed



lemma proc_row_transcription:
  assumes "proc_row r = Inr (Some (shp, r'))"
  shows "r' (ascii ''transcription'') \<noteq> None"
proof -
  from assms obtain r2 t where "r' = r2(ascii ''transcription'' \<mapsto> t)"
    by (auto simp: proc_row_def bind_err_Inr split: if_splits)
  then show ?thesis by simp
qed

lemma proc_file_transcription:
  assumes "proc_file rows = Inr ys" and "(shp, r') \<in> set ys"
  shows "r' (ascii ''transcription'') \<noteq> None"
  using assms
proof (induction rows arbitrary: ys)
  case Nil
  then show ?case by simp
next
  case (Cons x xs)
  from Cons.prems(1) obtain y zs where y: "proc_row x = Inr y" and zs: "proc_file xs = Inr zs"
    and ys: "ys = (case y of None \<Rightarrow> zs | Some p \<Rightarrow> p # zs)"
    by (auto simp: bind_err_Inr)
  show ?case
  proof (cases "(shp, r') \<in> set zs")
    case True
    then show ?thesis using Cons.IH[OF zs] by simp
  next
    case False
    then have "y = Some (shp, r')" using Cons.prems(2) ys by (cases y) auto
    then show ?thesis using y proc_row_transcription by simp
  qed
qed

lemma retained_cells:
  assumes "proc_file mono_rows = Inr ms" and "proc_file di_rows = Inr ds"
    and "r \<in> snd ` set (ms @ ds)"
  shows "r (ascii ''shape'') \<noteq> None" and "r (ascii ''transcription'') \<noteq> None"
proof -
  from assms(3) obtain k where "(k, r) \<in> set (ms @ ds)" by force
  then have kr: "(k, r) \<in> set ms \<or> (k, r) \<in> set ds" by simp
  have "r (ascii ''shape'') = Some k"
    using kr proc_file_shape[OF assms(1)] proc_file_shape[OF assms(2)] by blast
  then show "r (ascii ''shape'') \<noteq> None" by simp
  show "r (ascii ''transcription'') \<noteq> None"
    using kr proc_file_transcription[OF assms(1)] proc_file_transcription[OF assms(2)] by blast
qed

lemma sampled_rows_retained:
  assumes "permuting shuffle"
    and "sample_groups shuffle (group_rows ys) ([], [], g0) = Inr (a, b, g1)"
  shows "mset a + mset b \<subseteq># mset (map snd ys)"
  using sample_groups_mset[OF assms] by (simp add: group_rows_mset)

lemma sampled_sets_retained:
  assumes "permuting shuffle"
    and "sample_groups shuffle (group_rows ys) ([], [], g0) = Inr (a, b, g1)"
  shows "set a \<subseteq> snd ` set ys" and "set b \<subseteq> snd ` set ys"
proof -
  have "set_mset (mset a + mset b) \<subseteq> set_mset (mset (map snd ys))"
    by (rule set_mset_mono[OF sampled_rows_retained[OF assms]])
  then show "set a \<subseteq> snd ` set ys" and "set b \<subseteq> snd ` set ys" by auto
qed

lemma shape_count_cells:
  assumes "f (ascii ''shape'') \<noteq> None" and "\<forall>r \<in> set xs. r (ascii ''shape'') \<noteq> None"
  shows "shape_count s (map (cells f) xs) = shape_count s xs"
  using assms(2)
proof (induction xs)
  case Nil
  then show ?case by simp
next
  case (Cons r xs)
  from Cons.prems obtain v where v: "r (ascii ''shape'') = Some v" by auto
  have "cells f r (ascii ''shape'') = r (ascii ''shape'')"
    using cells_keep[of f "ascii ''shape''" r v] assms(1) v by simp
  then show ?case using Cons by (simp add: shape_count_def)
qed

lemma main_balanced:
  assumes "permuting shuffle"
    and "proc_file mono_rows = Inr ms" and "proc_file di_rows = Inr ds"
    and "ms @ ds \<noteq> []"
    and "\<forall>k \<in> fst ` set (ms @ ds). 2 * size_of k \<le> length (filter (\<lambda>p. fst p = k) (ms @ ds))"
    and "\<forall>p \<in> set (ms @ ds). dom (snd p) \<subseteq> dom (snd (last (ms @ ds)))"
  shows "\<exists>list1 list2.
           main shuffle g0 mono_rows di_rows =
             (None, \<lparr>list1_file = Some list1, list2_file = Some list2\<rparr>) \<and>
           (\<forall>s. shape_count s list1 = (if s \<in> fst ` set (ms @ ds) then size_of s else 0) \<and>
                shape_count s list2 = (if s \<in> fst ` set (ms @ ds) then size_of s else 0)) \<and>
           length list1 = sum_list (map (\<lambda>p. size_of (fst p)) (group_rows (ms @ ds))) \<and>
           length list2 = sum_list (map (\<lambda>p. size_of (fst p)) (group_rows (ms @ ds)))"
proof -
  let ?G = "group_rows (ms @ ds)"
  let ?f = "snd (last (ms @ ds))"
  have ok: "\<forall>(k, rs) \<in> set ?G. 2 * size_of k \<le> length rs"
  proof (clarify)
    fix k rs assume krs: "(k, rs) \<in> set ?G"
    then have "k \<in> fst ` set (ms @ ds)" using group_keys[of "ms @ ds"] by force
    then have "2 * size_of k \<le> length (filter (\<lambda>p. fst p = k) (ms @ ds))"
      using assms(5) by blast
    moreover have "length rs = length (filter (\<lambda>p. fst p = k) (ms @ ds))"
      unfolding group_members[OF krs] by (rule length_map)
    ultimately show "2 * size_of k \<le> length rs" by (simp only:)
  qed
  from sample_groups_succeeds[OF ok, of shuffle "[]" "[]" g0] obtain a b g1 where
    sg: "sample_groups shuffle ?G ([], [], g0) = Inr (a, b, g1)" by blast
  obtain a' g2 where s1: "shuffle a g1 = (a', g2)" by (cases "shuffle a g1")
  obtain b' g3 where s2: "shuffle b g2 = (b', g3)" by (cases "shuffle b g2")
  have l1: "a' = fst (shuffle a g1)" and l2: "b' = fst (shuffle b g2)"
    using s1 s2 by simp_all
  have sa: "set a' \<subseteq> snd ` set (ms @ ds)" and sb: "set b' \<subseteq> snd ` set (ms @ ds)"
    unfolding l1 l2 permuting_set[OF assms(1)]
    by (rule sampled_sets_retained[OF assms(1) sg])+
  have fa: "\<forall>r \<in> set a'. dom r \<subseteq> dom ?f" and fb: "\<forall>r \<in> set b'. dom r \<subseteq> dom ?f"
    using sa sb assms(6) by blast+
  have m: "main shuffle g0 mono_rows di_rows =
             (None, \<lparr>list1_file = Some (map (cells ?f) a'), list2_file = Some (map (cells ?f) b')\<rparr>)"
    unfolding main_written[OF assms(2,3) sg s1 s2 assms(4)] writerows_all[OF fa] writerows_all[OF fb]
    by simp
  have "last (ms @ ds) \<in> set (ms @ ds)" using assms(4) by (rule last_in_set)
  then have "?f \<in> snd ` set (ms @ ds)" by (rule imageI)
  then have fs: "?f (ascii ''shape'') \<noteq> None"
    by (rule retained_cells(1)[OF assms(2,3)])
  have ha: "\<forall>r \<in> set a'. r (ascii ''shape'') \<noteq> None"
    and hb: "\<forall>r \<in> set b'. r (ascii ''shape'') \<noteq> None"
    using sa sb retained_cells(1)[OF assms(2,3)] by blast+
  have u: "\<forall>(k, rs) \<in> set ?G. \<forall>r \<in> set rs. r (ascii ''shape'') = Some k"
    using group_rows_shape[OF assms(2,3)] by blast
  note c = sample_groups_counts[OF assms(1) sg distinct_group_keys u]
  have pa: "shape_count s a' = shape_count s a" for s
    unfolding l1 by (rule permuting_shape_count[OF assms(1)])
  have pb: "shape_count s b' = shape_count s b" for s
    unfolding l2 by (rule permuting_shape_count[OF assms(1)])
  have ca: "shape_count s (map (cells ?f) a') = shape_count s a" for s
    using shape_count_cells[of ?f a' s] fs ha pa[of s] by simp
  have cb: "shape_count s (map (cells ?f) b') = shape_count s b" for s
    using shape_count_cells[of ?f b' s] fs hb pb[of s] by simp
  have la: "length a' = length a" unfolding l1 by (rule permuting_length[OF assms(1)])
  have lb: "length b' = length b" unfolding l2 by (rule permuting_length[OF assms(1)])
  have "shape_count s (map (cells ?f) a') = (if s \<in> fst ` set (ms @ ds) then size_of s else 0) \<and>
        shape_count s (map (cells ?f) b') = (if s \<in> fst ` set (ms @ ds) then size_of s else 0)"
    for s
    using c[of s] unfolding ca cb group_keys by (simp add: shape_count_def)
  moreover have "length (map (cells ?f) a') = sum_list (map (\<lambda>p. size_of (fst p)) ?G) \<and>
        length (map (cells ?f) b') = sum_list (map (\<lambda>p. size_of (fst p)) ?G)"
    using c unfolding length_map la lb by simp
  ultimately show ?thesis using m by blast
qed

lemma dom_retained_row:
  "dom (retained_row shp ons) =
     {ascii ''onset1'', ascii ''nucleus1'', ascii ''onset2'', ascii ''nucleus2'', ascii ''coda'',
      ascii ''shape'', ascii ''transcription''}"
  by (auto simp: retained_row_def annotated_row_def ascii_def split: if_splits)


lemma proc_file_example: "proc_file (example_table n shps) = Inr (example_retained n shps)"
proof (induction shps)
  case Nil
  then show ?case by (simp add: example_table_def example_retained_def)
next
  case (Cons shp shps)
  have "proc_file (replicate n (annotated_row shp [112] ''FALSE'') @ example_table n shps) =
          Inr (replicate n (PyStr (ascii shp), retained_row shp [112]) @ example_retained n shps)"
    by (rule proc_file_append[OF proc_file_replicate[OF proc_row_annotated] Cons.IH])
  then show ?case by (simp add: example_table_def example_retained_def)
qed

lemma permuting_shuffle_rev: "permuting shuffle_rev"
  by (simp add: permuting_def shuffle_rev_def)







subsection \<open>Disjoint lists\<close>

text \<open>
  C5, as the code has it. With a shuffle that permutes, when the retained rows have
  pairwise different transcriptions, no transcription is in both of the lists that a run
  writes.
\<close>

theorem sampled_lists_disjoint:
  assumes "permuting shuffle"
    and "proc_file mono_rows = Inr ms" and "proc_file di_rows = Inr ds"
    and "distinct (transcriptions (map snd (ms @ ds)))"
    and "main shuffle g0 mono_rows di_rows = (err, w)"
    and "list1_file w = Some list1" and "list2_file w = Some list2"
  shows "set (transcriptions list1) \<inter> set (transcriptions list2) = {}"
proof (cases "sample_groups shuffle (group_rows (ms @ ds)) ([], [], g0)")
  case (Inl e)
  then have "main shuffle g0 mono_rows di_rows = (Some e, \<lparr>list1_file = None, list2_file = None\<rparr>)"
    by (simp add: main_def assms(2,3))
  then show ?thesis using assms(5,6) by simp
next
  case (Inr st)
  obtain a b g1 where st: "st = (a, b, g1)" by (cases st)
  obtain a' g2 where s1: "shuffle a g1 = (a', g2)" by (cases "shuffle a g1")
  obtain b' g3 where s2: "shuffle b g2 = (b', g3)" by (cases "shuffle b g2")
  show ?thesis
  proof (cases "ms @ ds = []")
    case True
    have "main shuffle g0 mono_rows di_rows =
        (Some UnboundLocalError, \<lparr>list1_file = Some [], list2_file = None\<rparr>)"
      by (rule main_no_rows[OF assms(2,3) Inr True])
    then show ?thesis using assms(5,7) by simp
  next
    case False
    let ?f = "snd (last (ms @ ds))"
    let ?P = "\<lambda>r. dom r \<subseteq> dom ?f"
    note mw = main_written[OF assms(2,3) Inr[unfolded st] s1 s2 False]
    have "list1 = fst (writerows ?f a') \<and> list2 = fst (writerows ?f b')"
      using assms(5,6,7) unfolding mw by (cases "snd (writerows ?f a')") auto
    then have l: "list1 = map (cells ?f) (takeWhile ?P a')"
      "list2 = map (cells ?f) (takeWhile ?P b')"
      by (simp_all only: writerows_fst)
    have a'_def: "a' = fst (shuffle a g1)" and b'_def: "b' = fst (shuffle b g2)"
      using s1 s2 by simp_all
    have sa: "set a' \<subseteq> snd ` set (ms @ ds)" and sb: "set b' \<subseteq> snd ` set (ms @ ds)"
      unfolding a'_def b'_def permuting_set[OF assms(1)]
      by (rule sampled_sets_retained[OF assms(1) Inr[unfolded st]])+
    have "last (ms @ ds) \<in> set (ms @ ds)" using False by (rule last_in_set)
    then have "?f \<in> snd ` set (ms @ ds)" by (rule imageI)
    then have ft: "?f (ascii ''transcription'') \<noteq> None"
      by (rule retained_cells(2)[OF assms(2,3)])
    have keep: "cells ?f r (ascii ''transcription'') = r (ascii ''transcription'')"
      if "r \<in> snd ` set (ms @ ds)" for r
    proof -
      from retained_cells(2)[OF assms(2,3) that] obtain v where
        v: "r (ascii ''transcription'') = Some v" by blast
      show ?thesis using cells_keep[of ?f "ascii ''transcription''" r v] ft v by simp
    qed
    have sub: "set (transcriptions (map (cells ?f) (takeWhile ?P xs))) \<subseteq> set (transcriptions xs)"
      if xs: "set xs \<subseteq> snd ` set (ms @ ds)" for xs
    proof
      fix t assume "t \<in> set (transcriptions (map (cells ?f) (takeWhile ?P xs)))"
      then obtain r where r: "r \<in> set (takeWhile ?P xs)"
        and t: "t = cells ?f r (ascii ''transcription'')"
        by (auto simp: transcriptions_def)
      from r have rx: "r \<in> set xs" by (rule set_takeWhileD[THEN conjunct1])
      with xs have "r \<in> snd ` set (ms @ ds)" by blast
      then have "t = r (ascii ''transcription'')" unfolding t by (rule keep)
      with rx show "t \<in> set (transcriptions xs)" by (simp add: transcriptions_def)
    qed
    have ma: "mset a' = mset a" and mb: "mset b' = mset b"
      using assms(1) s1 s2 unfolding permuting_def by (metis fst_conv)+
    have "mset a + mset b \<subseteq># mset (concat (map snd (group_rows (ms @ ds))))"
      using sample_groups_mset[OF assms(1) Inr[unfolded st]] by simp
    then have "mset (a' @ b') \<subseteq># mset (map snd (ms @ ds))"
      unfolding group_rows_mset by (simp add: ma mb)
    from distinct_map_submultiset[OF this assms(4)[unfolded transcriptions_def]]
    have "distinct (map (\<lambda>r. r (ascii ''transcription'')) (a' @ b'))" .
    then have "set (transcriptions a') \<inter> set (transcriptions b') = {}"
      by (simp add: transcriptions_def)
    then show ?thesis using sub[OF sa] sub[OF sb] unfolding l by blast
  qed
qed

lemma proc_file_numbered:
  "proc_file (map (\<lambda>i. annotated_row shp [i] ''FALSE'') ns) =
     Inr (map (\<lambda>i. (PyStr (ascii shp), retained_row shp [i])) ns)"
  by (induction ns) (simp_all add: proc_row_annotated bind_err_simps)

lemma retained_row_transcription:
  "retained_row shp ons (ascii ''transcription'') = Some (PyStr (ons @ [97, 110]))"
  by (simp add: retained_row_def)

theorem sampled_lists_disjoint_witness:
  "permuting shuffle_rev \<and>
   proc_file (map (\<lambda>i. annotated_row ''CVC'' [i] ''FALSE'') [0..<10]) =
     Inr (map (\<lambda>i. (PyStr (ascii ''CVC''), retained_row ''CVC'' [i])) [0..<10]) \<and>
   proc_file [] = Inr [] \<and>
   distinct (transcriptions (map snd
     (map (\<lambda>i. (PyStr (ascii ''CVC''), retained_row ''CVC'' [i])) [0..<10] @ []))) \<and>
   (\<exists>list1 list2.
      main shuffle_rev 0 (map (\<lambda>i. annotated_row ''CVC'' [i] ''FALSE'') [0..<10]) [] =
        (None, \<lparr>list1_file = Some list1, list2_file = Some list2\<rparr>) \<and>
      set (transcriptions list1) \<inter> set (transcriptions list2) = {})"
proof -
  let ?T = "map (\<lambda>i. annotated_row ''CVC'' [i] ''FALSE'') [0..<10]"
  let ?R = "map (\<lambda>i. (PyStr (ascii ''CVC''), retained_row ''CVC'' [i])) [0..<10]"
  have h2: "proc_file ?T = Inr ?R" by (rule proc_file_numbered)
  have h3: "proc_file [] = Inr []" by simp
  have h4: "distinct (transcriptions (map snd (?R @ [])))"
    by (simp add: transcriptions_def comp_def retained_row_transcription distinct_map inj_on_def)
  have ne: "?R @ [] \<noteq> []" by simp
  have big: "\<forall>k \<in> fst ` set (?R @ []).
               2 * size_of k \<le> length (filter (\<lambda>p. fst p = k) (?R @ []))"
    by (simp add: size_of_def)
  have same: "\<forall>p \<in> set (?R @ []). dom (snd p) \<subseteq> dom (snd (last (?R @ [])))"
    by (auto simp: dom_retained_row last_map)
  from main_balanced[OF permuting_shuffle_rev h2 h3 ne big same, of 0] obtain list1 list2 where
    m: "main shuffle_rev 0 ?T [] = (None, \<lparr>list1_file = Some list1, list2_file = Some list2\<rparr>)"
    by blast
  have "set (transcriptions list1) \<inter> set (transcriptions list2) = {}"
    by (rule sampled_lists_disjoint[OF permuting_shuffle_rev h2 h3 h4 m]) simp_all
  with m permuting_shuffle_rev h2 h3 h4 show ?thesis by blast
qed

lemma group_rows_replicate_acc:
  "fold (\<lambda>(shp, r) d. append_by_shape d shp r) (replicate n (k, r)) [(k, rs)] =
     [(k, rs @ replicate n r)]"
  by (induction n arbitrary: rs) (simp_all add: replicate_app_Cons_same del: fold_replicate)

lemma group_rows_replicate:
  "group_rows (replicate (Suc n) (k, r)) = [(k, replicate (Suc n) r)]"
proof -
  have "group_rows (replicate (Suc n) (k, r)) =
          fold (\<lambda>(shp, r) d. append_by_shape d shp r) (replicate n (k, r)) [(k, [r])]"
    by (simp add: group_rows_def del: fold_replicate)
  also have "\<dots> = [(k, [r] @ replicate n r)]"
    by (rule group_rows_replicate_acc)
  finally show ?thesis by simp
qed

text \<open>
  The claim as stated fails on a table that repeats a row: ten copies of one ill-formed
  CVC row meet the size precondition, and each list gets five of them, whatever the
  shuffle does, so their transcription \<open>pan\<close> is in both lists.
\<close>

theorem sampled_lists_disjoint_counterexample:
  "main shuffle_rev 0 (example_table 10 [''CVC'']) [] =
     (None, \<lparr>list1_file = Some (replicate 5 (retained_row ''CVC'' [112])),
             list2_file = Some (replicate 5 (retained_row ''CVC'' [112]))\<rparr>) \<and>
   transcriptions (replicate 5 (retained_row ''CVC'' [112])) =
     replicate 5 (Some (PyStr [112, 97, 110]))"
proof -
  have p: "proc_file (example_table 10 [''CVC'']) =
             Inr (replicate 10 (PyStr (ascii ''CVC''), retained_row ''CVC'' [112]))"
    using proc_file_example[of 10 "[''CVC'']"] by (simp add: example_retained_def)
  have g: "group_rows (replicate 10 (PyStr (ascii ''CVC''), retained_row ''CVC'' [112])) =
             [(PyStr (ascii ''CVC''), replicate 10 (retained_row ''CVC'' [112]))]"
    using group_rows_replicate[of 9] by simp
  have w: "writerows (retained_row ''CVC'' [112]) (replicate 5 (retained_row ''CVC'' [112])) =
             (replicate 5 (retained_row ''CVC'' [112]), None)"
    using writerows_all[of "replicate 5 (retained_row ''CVC'' [112])" "retained_row ''CVC'' [112]"]
    by (simp add: cells_same)
  have "main shuffle_rev 0 (example_table 10 [''CVC'']) [] =
     (None, \<lparr>list1_file = Some (replicate 5 (retained_row ''CVC'' [112])),
             list2_file = Some (replicate 5 (retained_row ''CVC'' [112]))\<rparr>)"
    by (simp add: main_def p g size_of_def shuffle_rev_def w)
  then show ?thesis by (simp add: transcriptions_def retained_row_transcription)
qed

end
